theory Spec2Isabelle
  imports Complex_Main "HOL-Library.Multiset"
begin

section \<open>The binary min-heap (class MinHeap)\<close>

text \<open>
  The class holds an array \<open>heap\<close> and a comparator \<open>compare\<close> returning a number; the
  code only ever tests \<open>compare a b < 0\<close>. Numbers are modelled as reals (no NaN). The
  comparator is passed to every operation, because the comparator of \<open>fillSinks\<close> is a
  closure that reads the elevation array as it is at the time of the call.
  The class is generic: its element type \<open>T\<close> may contain the value \<open>undefined\<close>, which
  \<open>pop\<close> tests for (\<open>bottom !== undefined\<close>). The predicate \<open>is_undefined\<close> says which
  values of the element type are that value; it is a parameter of \<open>pop\<close>. The heap of
  \<open>fillSinks\<close> is a \<open>MinHeap<number>\<close> holding array indices, none of which is
  \<open>undefined\<close>: there the predicate is \<open>\<lambda>v. False\<close>.
  Array indices are natural numbers; \<open>(index - 1) >>> 1\<close> and \<open>(index << 1) + 1\<close> are
  \<open>(index - 1) div 2\<close> and \<open>2 * index + 1\<close> for every index below \<open>2^30\<close>.
\<close>

type_synonym 'a comparator = "'a \<Rightarrow> 'a \<Rightarrow> real"

text \<open>The private method \<open>swap\<close>, and \<open>bubbleUp\<close> with its \<open>while (index > 0)\<close> loop.\<close>

definition swap :: "nat \<Rightarrow> nat \<Rightarrow> 'a list \<Rightarrow> 'a list" where
  "swap i j heap = (let temp = heap ! i in (heap[i := heap ! j])[j := temp])"

function bubbleUp :: "'a comparator \<Rightarrow> 'a list \<Rightarrow> nat \<Rightarrow> 'a list" where
  "bubbleUp compare heap index =
     (if index > 0 then
        (let parentIndex = (index - 1) div 2 in
         if compare (heap ! index) (heap ! parentIndex) < 0
         then bubbleUp compare (swap index parentIndex heap) parentIndex
         else heap)
      else heap)"
  by pat_completeness auto
termination
  by (relation "measure (\<lambda>(compare, heap, index). index)") auto

text \<open>\<open>push\<close> appends the item and sifts it up from the last index.\<close>

definition push :: "'a comparator \<Rightarrow> 'a \<Rightarrow> 'a list \<Rightarrow> 'a list" where
  "push compare item heap = bubbleUp compare (heap @ [item]) (length (heap @ [item]) - 1)"

text \<open>\<open>bubbleDown\<close> with its \<open>while (true)\<close> loop; \<open>break\<close> returns the array.\<close>

function bubbleDown :: "'a comparator \<Rightarrow> 'a list \<Rightarrow> nat \<Rightarrow> 'a list" where
  "bubbleDown compare heap index =
     (let leftIndex = 2 * index + 1;
          rightIndex = leftIndex + 1
      in if leftIndex < length heap then
           (let swapIndex =
                  (if rightIndex < length heap
                   then (if compare (heap ! leftIndex) (heap ! rightIndex) < 0
                         then leftIndex else rightIndex)
                   else leftIndex)
            in if compare (heap ! swapIndex) (heap ! index) < 0
               then bubbleDown compare (swap index swapIndex heap) swapIndex
               else heap)
         else heap)"
  by pat_completeness auto
termination
  by (relation "measure (\<lambda>(compare, heap, index). length heap - index)")
     (auto simp: swap_def Let_def)

text \<open>
  \<open>pop\<close> returns the result and the new array. The result \<open>None\<close> is the \<open>undefined\<close>
  returned for the empty heap; otherwise the result is \<open>Some top\<close>, the first element of the
  array (which is the value \<open>undefined\<close> itself when \<open>is_undefined top\<close>).
  \<open>this.heap.pop()\<close> removes the last element of the array and returns it: \<open>bottom\<close> is
  \<open>last heap\<close> and the array becomes \<open>butlast heap\<close>. When the last element is
  \<open>undefined\<close>, the test fails: the first element stays where it is.
\<close>

definition pop :: "('a \<Rightarrow> bool) \<Rightarrow> 'a comparator \<Rightarrow> 'a list \<Rightarrow> 'a option \<times> 'a list" where
  "pop is_undefined compare heap =
     (if length heap = 0 then (None, heap)
      else (let top = heap ! 0;
                bottom = last heap;
                heap' = butlast heap
            in if length heap' > 0 \<and> \<not> is_undefined bottom
               then (Some top, bubbleDown compare (heap'[0 := bottom]) 0)
               else (Some top, heap')))"

declare bubbleUp.simps [simp del]
declare bubbleDown.simps [simp del]

text \<open>
  C9. Calling \<open>pop\<close> on an empty heap returns the empty result (\<open>None\<close>, for
  \<open>undefined\<close>) and leaves the heap empty, of length 0, whatever the comparator and the
  element type are; the heap is as usable as a new one: a following \<open>push\<close> stores its item.
\<close>

theorem pop_empty:
  "pop is_undefined compare [] = (None, []) \<and>
   length (snd (pop is_undefined compare [])) = 0 \<and>
   push compare item (snd (pop is_undefined compare [])) = [item]"
  by (simp add: pop_def push_def bubbleUp.simps)

subsection \<open>Heap order and the stored multiset\<close>

text \<open>
  The comparator is a total preorder when \<open>a \<le> b\<close>, read as \<open>compare a b \<le> 0\<close>, is total and
  transitive, and \<open>compare a b < 0\<close> holds exactly when \<open>compare b a\<close> is positive.
  \<open>heap_inv\<close> is the heap order of the array: no element is smaller than its parent.
  \<open>inv_up\<close> and \<open>inv_down\<close> are the heap order with one exception at index \<open>i\<close>, as it holds
  inside the loops of \<open>bubbleUp\<close> and \<open>bubbleDown\<close>.
\<close>

definition total_preorder :: "'a comparator \<Rightarrow> bool" where
  "total_preorder compare \<longleftrightarrow>
     (\<forall>a b. compare a b \<le> 0 \<or> compare b a \<le> 0) \<and>
     (\<forall>a b c. compare a b \<le> 0 \<longrightarrow> compare b c \<le> 0 \<longrightarrow> compare a c \<le> 0) \<and>
     (\<forall>a b. compare a b < 0 \<longleftrightarrow> 0 < compare b a)"

definition heap_inv :: "'a comparator \<Rightarrow> 'a list \<Rightarrow> bool" where
  "heap_inv compare heap \<longleftrightarrow>
     (\<forall>j. 0 < j \<and> j < length heap \<longrightarrow> \<not> compare (heap ! j) (heap ! ((j - 1) div 2)) < 0)"

definition inv_up :: "'a comparator \<Rightarrow> 'a list \<Rightarrow> nat \<Rightarrow> bool" where
  "inv_up compare heap i \<longleftrightarrow>
     (\<forall>j. 0 < j \<and> j < length heap \<and> j \<noteq> i \<longrightarrow>
          \<not> compare (heap ! j) (heap ! ((j - 1) div 2)) < 0) \<and>
     (\<forall>j. 0 < j \<and> j < length heap \<and> (j - 1) div 2 = i \<and> 0 < i \<longrightarrow>
          \<not> compare (heap ! j) (heap ! ((i - 1) div 2)) < 0)"

definition inv_down :: "'a comparator \<Rightarrow> 'a list \<Rightarrow> nat \<Rightarrow> bool" where
  "inv_down compare heap i \<longleftrightarrow>
     (\<forall>j. 0 < j \<and> j < length heap \<and> (j - 1) div 2 \<noteq> i \<longrightarrow>
          \<not> compare (heap ! j) (heap ! ((j - 1) div 2)) < 0) \<and>
     (\<forall>j. 0 < j \<and> j < length heap \<and> (j - 1) div 2 = i \<and> 0 < i \<longrightarrow>
          \<not> compare (heap ! j) (heap ! ((i - 1) div 2)) < 0)"

lemma tp_asym: "total_preorder c \<Longrightarrow> c a b < 0 \<Longrightarrow> \<not> c b a < 0"
  unfolding total_preorder_def by (metis less_asym)

lemma tp_trans: "total_preorder c \<Longrightarrow> c a b < 0 \<Longrightarrow> c b d < 0 \<Longrightarrow> c a d < 0"
  unfolding total_preorder_def by (metis less_eq_real_def not_less)

lemma tp_negtrans: "total_preorder c \<Longrightarrow> \<not> c a b < 0 \<Longrightarrow> \<not> c b d < 0 \<Longrightarrow> \<not> c a d < 0"
  unfolding total_preorder_def by (metis less_eq_real_def not_less)

lemma tp_le: "total_preorder c \<Longrightarrow> \<not> c a b < 0 \<Longrightarrow> c b a \<le> 0"
  unfolding total_preorder_def by (metis less_eq_real_def not_less)

lemma length_swap [simp]: "length (swap i j h) = length h"
  by (simp add: swap_def)

lemma nth_swap:
  "i < length h \<Longrightarrow> j < length h \<Longrightarrow> k < length h \<Longrightarrow>
   swap i j h ! k = (if k = j then h ! i else if k = i then h ! j else h ! k)"
  by (simp add: swap_def nth_list_update)

lemma mset_swap_heap: "i < length h \<Longrightarrow> j < length h \<Longrightarrow> mset (swap i j h) = mset h"
  by (simp add: swap_def mset_swap)

lemma length_bubbleUp [simp]: "length (bubbleUp c h i) = length h"
  by (induction c h i rule: bubbleUp.induct) (subst bubbleUp.simps, simp add: Let_def)

lemma length_bubbleDown [simp]: "length (bubbleDown c h i) = length h"
  by (induction c h i rule: bubbleDown.induct) (subst bubbleDown.simps, simp add: Let_def)

lemma mset_bubbleUp: "i < length h \<Longrightarrow> mset (bubbleUp c h i) = mset h"
proof (induction c h i rule: bubbleUp.induct)
  case (1 c h i)
  show ?case
  proof (cases "0 < i \<and> c (h ! i) (h ! ((i - 1) div 2)) < 0")
    case True
    then have p: "(i - 1) div 2 < length h" using "1.prems" by simp
    have "mset (bubbleUp c (swap i ((i - 1) div 2) h) ((i - 1) div 2)) = mset (swap i ((i - 1) div 2) h)"
      using "1.IH"[OF _ refl] True p by simp
    then show ?thesis using True p "1.prems"
      by (subst bubbleUp.simps) (simp add: Let_def mset_swap_heap)
  next
    case False
    then show ?thesis by (subst bubbleUp.simps) (auto simp: Let_def)
  qed
qed

definition smaller_child :: "'a comparator \<Rightarrow> 'a list \<Rightarrow> nat \<Rightarrow> nat" where
  "smaller_child c h i =
     (if 2 * i + 2 < length h
      then (if c (h ! (2 * i + 1)) (h ! (2 * i + 2)) < 0 then 2 * i + 1 else 2 * i + 2)
      else 2 * i + 1)"

lemma bubbleDown_unfold:
  "bubbleDown c h i =
     (if 2 * i + 1 < length h \<and> c (h ! smaller_child c h i) (h ! i) < 0
      then bubbleDown c (swap i (smaller_child c h i) h) (smaller_child c h i)
      else h)"
  by (subst bubbleDown.simps) (simp add: Let_def smaller_child_def)

lemma bubbleDown_induct:
  assumes "\<And>h i. (2 * i + 1 < length h \<Longrightarrow> c (h ! smaller_child c h i) (h ! i) < 0 \<Longrightarrow>
             P (swap i (smaller_child c h i) h) (smaller_child c h i)) \<Longrightarrow> P h i"
  shows "P h i"
proof (induction "length h - i" arbitrary: h i rule: less_induct)
  case less
  show ?case
  proof (rule assms)
    assume a: "2 * i + 1 < length h"
    then have "i < smaller_child c h i" "smaller_child c h i < length h"
      by (simp_all add: smaller_child_def)
    then show "P (swap i (smaller_child c h i) h) (smaller_child c h i)"
      by (intro less) simp
  qed
qed

lemma smaller_child_bound: "2 * i + 1 < length h \<Longrightarrow> smaller_child c h i < length h"
  by (simp add: smaller_child_def)

lemma mset_bubbleDown: "mset (bubbleDown c h i) = mset h"
proof (induction h i rule: bubbleDown_induct[where c = c])
  case (1 h i)
  show ?case
  proof (cases "2 * i + 1 < length h \<and> c (h ! smaller_child c h i) (h ! i) < 0")
    case True
    then have "mset (bubbleDown c h i) = mset (swap i (smaller_child c h i) h)"
      using 1 by (subst bubbleDown_unfold) simp
    also have "\<dots> = mset h"
      using True by (intro mset_swap_heap smaller_child_bound) auto
    finally show ?thesis .
  next
    case False
    then show ?thesis by (subst bubbleDown_unfold) auto
  qed
qed

lemma inv_up_step:
  assumes tp: "total_preorder c"
    and i: "0 < i" "i < length h"
    and lt: "c (h ! i) (h ! ((i - 1) div 2)) < 0"
    and inv: "inv_up c h i"
  shows "inv_up c (swap i ((i - 1) div 2) h) ((i - 1) div 2)"
proof -
  define p where "p = (i - 1) div 2"
  define h' where "h' = swap i p h"
  have p: "p < i" "p < length h" using i by (auto simp: p_def)
  have nth: "\<And>k. k < length h \<Longrightarrow> h' ! k = (if k = p then h ! i else if k = i then h ! p else h ! k)"
    unfolding h'_def using i p by (simp add: nth_swap)
  have a: "\<And>j. 0 < j \<Longrightarrow> j < length h \<Longrightarrow> j \<noteq> i \<Longrightarrow> \<not> c (h ! j) (h ! ((j - 1) div 2)) < 0"
    using inv unfolding inv_up_def by blast
  have b: "\<And>j. 0 < j \<Longrightarrow> j < length h \<Longrightarrow> (j - 1) div 2 = i \<Longrightarrow> \<not> c (h ! j) (h ! p) < 0"
    using inv i unfolding inv_up_def p_def by blast
  have A: "\<not> c (h' ! j) (h' ! ((j - 1) div 2)) < 0" if j: "0 < j" "j < length h" "j \<noteq> p" for j
  proof -
    have pj: "(j - 1) div 2 < length h" using j by simp
    consider "j = i" | "j \<noteq> i" "(j - 1) div 2 = i" | "j \<noteq> i" "(j - 1) div 2 = p"
      | "j \<noteq> i" "(j - 1) div 2 \<noteq> i" "(j - 1) div 2 \<noteq> p" by blast
    then show ?thesis
    proof cases
      case 1
      then show ?thesis using nth[of i] nth[of p] i p lt tp_asym[OF tp] by (simp add: p_def)
    next
      case 2
      then have "j \<noteq> p" "i \<noteq> p" using p j by auto
      then show ?thesis using 2 nth[of j] nth[of i] j i b[of j] by simp
    next
      case 3
      have "\<not> c (h ! j) (h ! p) < 0" using a[of j] j 3 by simp
      then have "\<not> c (h ! j) (h ! i) < 0" using tp_trans[OF tp _ lt[folded p_def]] by blast
      then show ?thesis using 3 nth[of j] nth[of p] j p by simp
    next
      case 4
      then show ?thesis using nth[of j] nth[of "(j - 1) div 2"] j pj a[of j] by simp
    qed
  qed
  have B: "\<not> c (h' ! j) (h' ! ((p - 1) div 2)) < 0"
    if j: "0 < j" "j < length h" "(j - 1) div 2 = p" "0 < p" for j
  proof -
    have pp: "(p - 1) div 2 < p" "(p - 1) div 2 < length h" using j p by auto
    then have g: "h' ! ((p - 1) div 2) = h ! ((p - 1) div 2)" using nth[of "(p - 1) div 2"] p by simp
    have pg: "\<not> c (h ! p) (h ! ((p - 1) div 2)) < 0" using a[of p] j p by simp
    have jp: "j \<noteq> p" using j by auto
    show ?thesis
    proof (cases "j = i")
      case True
      then show ?thesis using nth[of i] i p g pg by simp
    next
      case False
      have "\<not> c (h ! j) (h ! p) < 0" using a[of j] j False by simp
      then have "\<not> c (h ! j) (h ! ((p - 1) div 2)) < 0" using tp_negtrans[OF tp _ pg] by blast
      then show ?thesis using nth[of j] j jp False g by simp
    qed
  qed
  show ?thesis
    unfolding inv_up_def p_def[symmetric] h'_def[symmetric]
    using A B by (simp add: h'_def)
qed

lemma inv_up_done:
  assumes "inv_up c h i" "i = 0 \<or> \<not> c (h ! i) (h ! ((i - 1) div 2)) < 0"
  shows "heap_inv c h"
  using assms unfolding inv_up_def heap_inv_def by (metis not_gr_zero)

lemma heap_inv_bubbleUp:
  assumes tp: "total_preorder c"
  shows "i < length h \<Longrightarrow> inv_up c h i \<Longrightarrow> heap_inv c (bubbleUp c h i)"
proof (induction i arbitrary: h rule: less_induct)
  case (less i)
  show ?case
  proof (cases "0 < i \<and> c (h ! i) (h ! ((i - 1) div 2)) < 0")
    case True
    then have "heap_inv c (bubbleUp c (swap i ((i - 1) div 2) h) ((i - 1) div 2))"
      using less.prems by (intro less.IH inv_up_step[OF tp]) auto
    then show ?thesis using True by (subst bubbleUp.simps) (simp add: Let_def)
  next
    case False
    then have "bubbleUp c h i = h" by (subst bubbleUp.simps) (auto simp: Let_def)
    then show ?thesis using inv_up_done[OF less.prems(2)] False by auto
  qed
qed

lemma smaller_child_cases:
  assumes "2 * i + 1 < length h"
  shows "smaller_child c h i < length h" "i < smaller_child c h i"
    "(smaller_child c h i - 1) div 2 = i"
  using assms by (auto simp: smaller_child_def)

lemma smaller_child_least:
  assumes tp: "total_preorder c" and j: "0 < j" "j < length h" "(j - 1) div 2 = i"
  shows "\<not> c (h ! j) (h ! smaller_child c h i) < 0"
proof -
  have "j = 2 * i + 1 \<or> j = 2 * i + 2" using j by auto
  then show ?thesis
  proof
    assume l: "j = 2 * i + 1"
    show ?thesis
    proof (cases "2 * i + 2 < length h \<and> \<not> c (h ! (2 * i + 1)) (h ! (2 * i + 2)) < 0")
      case True
      then show ?thesis using l by (simp add: smaller_child_def)
    next
      case False
      then have "smaller_child c h i = j" using l by (auto simp: smaller_child_def)
      then show ?thesis using tp_asym[OF tp] by auto
    qed
  next
    assume r: "j = 2 * i + 2"
    show ?thesis
    proof (cases "c (h ! (2 * i + 1)) (h ! (2 * i + 2)) < 0")
      case True
      then have "smaller_child c h i = 2 * i + 1" using r j by (simp add: smaller_child_def)
      then show ?thesis using True tp_asym[OF tp] r by auto
    next
      case False
      then have "smaller_child c h i = j" using r j by (simp add: smaller_child_def)
      then show ?thesis using tp_asym[OF tp] by auto
    qed
  qed
qed

lemma inv_down_step:
  assumes tp: "total_preorder c"
    and l: "2 * i + 1 < length h"
    and lt: "c (h ! smaller_child c h i) (h ! i) < 0"
    and inv: "inv_down c h i"
  shows "inv_down c (swap i (smaller_child c h i) h) (smaller_child c h i)"
proof -
  define s where "s = smaller_child c h i"
  define h' where "h' = swap i s h"
  have s: "s < length h" "i < s" "(s - 1) div 2 = i"
    unfolding s_def using smaller_child_cases[OF l] by auto
  have i: "i < length h" using l by simp
  have nth: "\<And>k. k < length h \<Longrightarrow> h' ! k = (if k = s then h ! i else if k = i then h ! s else h ! k)"
    unfolding h'_def using i s by (simp add: nth_swap)
  have a: "\<And>j. 0 < j \<Longrightarrow> j < length h \<Longrightarrow> (j - 1) div 2 \<noteq> i \<Longrightarrow> \<not> c (h ! j) (h ! ((j - 1) div 2)) < 0"
    using inv unfolding inv_down_def by blast
  have b: "\<And>j. 0 < j \<Longrightarrow> j < length h \<Longrightarrow> (j - 1) div 2 = i \<Longrightarrow> 0 < i \<Longrightarrow> \<not> c (h ! j) (h ! ((i - 1) div 2)) < 0"
    using inv unfolding inv_down_def by blast
  have A: "\<not> c (h' ! j) (h' ! ((j - 1) div 2)) < 0"
    if j: "0 < j" "j < length h" "(j - 1) div 2 \<noteq> s" for j
  proof -
    have pj: "(j - 1) div 2 < length h" "(j - 1) div 2 < j" using j by auto
    consider "j = s" | "j = i" | "j \<noteq> s" "j \<noteq> i" "(j - 1) div 2 = i"
      | "j \<noteq> s" "j \<noteq> i" "(j - 1) div 2 \<noteq> i" by blast
    then show ?thesis
    proof cases
      case 1
      then show ?thesis using nth[of s] nth[of i] s i lt[folded s_def] tp_asym[OF tp] by simp
    next
      case 2
      then have "0 < i" using j by simp
      then have "\<not> c (h ! s) (h ! ((i - 1) div 2)) < 0" using b[of s] s by simp
      moreover have "(i - 1) div 2 \<noteq> s" "(i - 1) div 2 \<noteq> i" "(i - 1) div 2 < length h"
        using s i \<open>0 < i\<close> by auto
      ultimately show ?thesis using 2 nth[of i] nth[of "(i - 1) div 2"] i s by simp
    next
      case 3
      have "\<not> c (h ! j) (h ! s) < 0"
        unfolding s_def using smaller_child_least[OF tp j(1,2) 3(3)] .
      then show ?thesis using 3 nth[of j] nth[of i] j i s by simp
    next
      case 4
      then show ?thesis using nth[of j] nth[of "(j - 1) div 2"] j pj a[of j] by simp
    qed
  qed
  have B: "\<not> c (h' ! j) (h' ! ((s - 1) div 2)) < 0"
    if j: "0 < j" "j < length h" "(j - 1) div 2 = s" for j
  proof -
    have "j \<noteq> s" "j \<noteq> i" using j s by auto
    moreover have "\<not> c (h ! j) (h ! s) < 0" using a[of j] j s by simp
    ultimately show ?thesis using nth[of j] nth[of i] j i s by simp
  qed
  show ?thesis
    unfolding inv_down_def s_def[symmetric] h'_def[symmetric]
    using A B by (simp add: h'_def)
qed

lemma inv_down_done:
  assumes tp: "total_preorder c"
    and inv: "inv_down c h i"
    and stop: "\<not> (2 * i + 1 < length h \<and> c (h ! smaller_child c h i) (h ! i) < 0)"
  shows "heap_inv c h"
  unfolding heap_inv_def
proof (intro allI impI)
  fix j assume j: "0 < j \<and> j < length h"
  show "\<not> c (h ! j) (h ! ((j - 1) div 2)) < 0"
  proof (cases "(j - 1) div 2 = i")
    case True
    then have l: "2 * i + 1 < length h" using j by auto
    then have "\<not> c (h ! smaller_child c h i) (h ! i) < 0" using stop by simp
    moreover have "\<not> c (h ! j) (h ! smaller_child c h i) < 0"
      using smaller_child_least[OF tp _ _ True] j by simp
    ultimately show ?thesis using tp_negtrans[OF tp] True by blast
  next
    case False
    then show ?thesis using inv j unfolding inv_down_def by blast
  qed
qed

lemma heap_inv_bubbleDown:
  assumes tp: "total_preorder c"
  shows "inv_down c h i \<Longrightarrow> heap_inv c (bubbleDown c h i)"
proof (induction h i rule: bubbleDown_induct[where c = c])
  case (1 h i)
  show ?case
  proof (cases "2 * i + 1 < length h \<and> c (h ! smaller_child c h i) (h ! i) < 0")
    case True
    then have "heap_inv c (bubbleDown c (swap i (smaller_child c h i) h) (smaller_child c h i))"
      using 1 inv_down_step[OF tp] by blast
    then show ?thesis using True by (subst bubbleDown_unfold) simp
  next
    case False
    then have "bubbleDown c h i = h" by (subst bubbleDown_unfold) auto
    then show ?thesis using inv_down_done[OF tp "1.prems" False] by simp
  qed
qed

text \<open>A sequence of operations on a heap; \<open>run_ops\<close> applies them in order.\<close>

datatype 'a heap_op = Push 'a | Pop

fun run_ops :: "('a \<Rightarrow> bool) \<Rightarrow> 'a comparator \<Rightarrow> 'a heap_op list \<Rightarrow> 'a list \<Rightarrow> 'a list" where
  "run_ops is_undefined compare [] heap = heap"
| "run_ops is_undefined compare (Push item # ops) heap =
     run_ops is_undefined compare ops (push compare item heap)"
| "run_ops is_undefined compare (Pop # ops) heap =
     run_ops is_undefined compare ops (snd (pop is_undefined compare heap))"

text \<open>
  A heap of type \<open>MinHeap<number | undefined>\<close> has the elements \<open>Some n\<close>, the number
  \<open>n\<close>, and \<open>None\<close>, the value \<open>undefined\<close> (the predicate \<open>is_undefined\<close> is
  \<open>Option.is_none\<close>). \<open>undefined_last\<close> is the comparator \<open>(a, b) => (a ?? 99) - (b ?? 99)\<close>
  on it.
\<close>

definition undefined_last :: "nat option comparator" where
  "undefined_last a b =
     real (case a of None \<Rightarrow> 99 | Some x \<Rightarrow> x) - real (case b of None \<Rightarrow> 99 | Some x \<Rightarrow> x)"

lemma heap_inv_push:
  assumes tp: "total_preorder c" and inv: "heap_inv c h"
  shows "heap_inv c (push c x h)"
proof -
  have "inv_up c (h @ [x]) (length h)"
    unfolding inv_up_def
  proof (intro conjI allI impI)
    fix j assume "0 < j \<and> j < length (h @ [x]) \<and> j \<noteq> length h"
    then have j: "0 < j" "j < length h" "(j - 1) div 2 < length h" by auto
    then show "\<not> c ((h @ [x]) ! j) ((h @ [x]) ! ((j - 1) div 2)) < 0"
      using inv unfolding heap_inv_def by (simp add: nth_append)
  next
    fix j assume "0 < j \<and> j < length (h @ [x]) \<and> (j - 1) div 2 = length h \<and> 0 < length h"
    then have False by auto
    then show "\<not> c ((h @ [x]) ! j) ((h @ [x]) ! ((length h - 1) div 2)) < 0" ..
  qed
  then show ?thesis unfolding push_def
    using heap_inv_bubbleUp[OF tp, of "length h" "h @ [x]"] by simp
qed

lemma mset_push: "mset (push c x h) = mset h + {#x#}"
  unfolding push_def by (simp add: mset_bubbleUp)

lemma length_push [simp]: "length (push c x h) = Suc (length h)"
  unfolding push_def by simp

lemma pop_nonempty:
  "h \<noteq> [] \<Longrightarrow> fst (pop u c h) = Some (h ! 0)"
  by (simp add: pop_def Let_def)

lemma mset_pop:
  assumes "h \<noteq> []" and "\<not> u (last h)"
  shows "mset (snd (pop u c h)) = mset h - {#h ! 0#}"
proof (cases h)
  case Nil
  then show ?thesis using assms by simp
next
  case (Cons x xs)
  show ?thesis
  proof (cases "xs = []")
    case True
    then show ?thesis using Cons by (simp add: pop_def)
  next
    case False
    then have "(butlast h)[0 := last h] = last xs # butlast xs"
      using Cons by simp
    moreover have "mset (last xs # butlast xs) = mset (butlast xs @ [last xs])" by simp
    moreover have "butlast xs @ [last xs] = xs" using False by simp
    ultimately have "mset ((butlast h)[0 := last h]) = mset xs" by metis
    then show ?thesis using Cons False assms(2) by (simp add: pop_def Let_def mset_bubbleDown)
  qed
qed

lemma pop_undefined_bottom:
  "h \<noteq> [] \<Longrightarrow> u (last h) \<Longrightarrow> snd (pop u c h) = butlast h"
  by (simp add: pop_def Let_def)

lemma length_pop [simp]: "length (snd (pop u c h)) = length h - 1"
  by (cases h) (simp_all add: pop_def Let_def)

lemma heap_inv_butlast:
  assumes inv: "heap_inv c h"
  shows "heap_inv c (butlast h)"
  unfolding heap_inv_def
proof (intro allI impI)
  fix j assume j: "0 < j \<and> j < length (butlast h)"
  then have "butlast h ! j = h ! j" "butlast h ! ((j - 1) div 2) = h ! ((j - 1) div 2)"
    by (auto simp: nth_butlast)
  moreover have "0 < j" "j < length h" using j by auto
  ultimately show "\<not> c (butlast h ! j) (butlast h ! ((j - 1) div 2)) < 0"
    using inv unfolding heap_inv_def by simp
qed

lemma heap_inv_pop:
  assumes tp: "total_preorder c" and inv: "heap_inv c h"
  shows "heap_inv c (snd (pop u c h))"
proof (cases "length h \<le> 1")
  case True
  then show ?thesis by (auto simp: pop_def Let_def heap_inv_def)
next
  case False
  then have ne: "h \<noteq> []" by auto
  show ?thesis
  proof (cases "u (last h)")
    case True
    then show ?thesis using pop_undefined_bottom[where u = u and h = h and c = c] ne heap_inv_butlast[OF inv] by simp
  next
    case defined: False
    define h' where "h' = (butlast h)[0 := last h]"
    have "inv_down c h' 0"
      unfolding inv_down_def
    proof (intro conjI allI impI)
      fix j assume j: "0 < j \<and> j < length h' \<and> (j - 1) div 2 \<noteq> 0"
      then have "h' ! j = h ! j" "h' ! ((j - 1) div 2) = h ! ((j - 1) div 2)"
        by (auto simp: h'_def nth_butlast)
      moreover have "0 < j" "j < length h" using j by (auto simp: h'_def)
      ultimately show "\<not> c (h' ! j) (h' ! ((j - 1) div 2)) < 0"
        using inv unfolding heap_inv_def by simp
    qed simp
    then have "heap_inv c (bubbleDown c h' 0)" by (rule heap_inv_bubbleDown[OF tp])
    moreover have "0 < length (butlast h)" "length h \<noteq> 0" using False by auto
    ultimately show ?thesis using defined unfolding pop_def Let_def h'_def by simp
  qed
qed

lemma heap_inv_root_minimal:
  assumes tp: "total_preorder c" and inv: "heap_inv c h"
  shows "j < length h \<Longrightarrow> \<not> c (h ! j) (h ! 0) < 0"
proof (induction j rule: less_induct)
  case (less j)
  show ?case
  proof (cases "j = 0")
    case True
    then show ?thesis using tp_asym[OF tp] by blast
  next
    case False
    then have "\<not> c (h ! j) (h ! ((j - 1) div 2)) < 0"
      using inv less.prems unfolding heap_inv_def by simp
    moreover have "\<not> c (h ! ((j - 1) div 2)) (h ! 0) < 0"
      using False less.prems by (intro less.IH) auto
    ultimately show ?thesis using tp_negtrans[OF tp] by blast
  qed
qed

lemma heap_inv_run_ops:
  assumes tp: "total_preorder c"
  shows "heap_inv c h \<Longrightarrow> heap_inv c (run_ops u c ops h)"
proof (induction ops arbitrary: h)
  case Nil
  then show ?case by simp
next
  case (Cons a ops)
  then show ?case
    by (cases a) (simp_all add: heap_inv_push[OF tp] heap_inv_pop[OF tp])
qed

lemma undefined_last_total_preorder: "total_preorder undefined_last"
  unfolding total_preorder_def undefined_last_def by (intro conjI allI) auto

text \<open>
  C8. For a comparator that is a total preorder (\<open>a \<le> b\<close> iff \<open>compare a b \<le> 0\<close>) and any
  sequence of \<open>push\<close> and \<open>pop\<close> operations run from the empty heap, a \<open>pop\<close> of the
  resulting non-empty heap returns an element that is stored and is minimal among the stored
  elements; and when none of the stored elements is the value \<open>undefined\<close>, it removes
  exactly one occurrence of the returned element. Elements are counted as a multiset, so
  duplicates are permitted.
\<close>

theorem pop_minimal:
  assumes "total_preorder compare"
    and "heap = run_ops is_undefined compare ops []"
    and "heap \<noteq> []"
  shows "\<exists>x heap'. pop is_undefined compare heap = (Some x, heap') \<and> x \<in># mset heap \<and>
           (\<forall>y \<in># mset heap. compare x y \<le> 0) \<and>
           ((\<forall>y \<in># mset heap. \<not> is_undefined y) \<longrightarrow> mset heap' = mset heap - {#x#})"
proof -
  have inv: "heap_inv compare heap"
    using heap_inv_run_ops[OF assms(1), of "[]" is_undefined ops] assms(2)
    by (simp add: heap_inv_def)
  have min: "\<forall>y \<in># mset heap. compare (heap ! 0) y \<le> 0"
  proof
    fix y assume "y \<in># mset heap"
    then obtain j where "j < length heap" "heap ! j = y" by (auto simp: in_set_conv_nth)
    then show "compare (heap ! 0) y \<le> 0"
      using heap_inv_root_minimal[OF assms(1) inv, of j] tp_le[OF assms(1)] by blast
  qed
  have p: "pop is_undefined compare heap = (Some (heap ! 0), snd (pop is_undefined compare heap))"
    using pop_nonempty[OF assms(3), of is_undefined compare] by (metis prod.collapse)
  have top: "heap ! 0 \<in># mset heap" using assms(3) by simp
  have removal: "mset (snd (pop is_undefined compare heap)) = mset heap - {#heap ! 0#}"
    if "\<forall>y \<in># mset heap. \<not> is_undefined y"
  proof -
    have "last heap \<in># mset heap" using assms(3) by simp
    then have "\<not> is_undefined (last heap)" using that by blast
    then show ?thesis using mset_pop[OF assms(3), of is_undefined compare] by simp
  qed
  show ?thesis using p top min removal by blast
qed

text \<open>
  The condition on \<open>undefined\<close> cannot be dropped: the type parameter of the class admits
  the value, and \<open>pop\<close> tests the last array element against it before it overwrites the
  first. On the heap \<open>[1, undefined]\<close>, built by \<open>push(1)\<close> and \<open>push(undefined)\<close> under
  the comparator \<open>undefined_last\<close>, \<open>pop\<close> returns 1 and leaves \<open>[1]\<close>: the returned
  element is still stored, and the element that is gone is \<open>undefined\<close>.
\<close>

theorem pop_removal_counterexample:
  "total_preorder undefined_last \<and>
   run_ops Option.is_none undefined_last [Push (Some 1), Push None] [] = [Some 1, None] \<and>
   pop Option.is_none undefined_last [Some 1, None] = (Some (Some 1), [Some 1]) \<and>
   mset [Some (1::nat)] \<noteq> mset [Some 1, None] - {#Some 1#}"
proof -
  have "run_ops Option.is_none undefined_last [Push (Some 1), Push None] [] = [Some 1, None]"
    by (simp add: push_def bubbleUp.simps undefined_last_def Let_def)
  moreover have "pop Option.is_none undefined_last [Some 1, None] = (Some (Some 1), [Some 1])"
    by (simp add: pop_def Let_def)
  moreover have "mset [Some (1::nat)] \<noteq> mset [Some 1, None] - {#Some 1#}"
    by simp
  ultimately show ?thesis using undefined_last_total_preorder by blast
qed

theorem pop_minimal_witness:
  "total_preorder undefined_last \<and>
   run_ops Option.is_none undefined_last
     [Push None, Pop, Push (Some 3), Push (Some 1), Push (Some 2), Push (Some 1), Pop] [] =
     [Some 1, Some 3, Some 2] \<and>
   [Some 1, Some 3, Some (2::nat)] \<noteq> [] \<and>
   \<not> Option.is_none (Some (1::nat)) \<and> \<not> Option.is_none (Some (3::nat)) \<and>
   \<not> Option.is_none (Some (2::nat)) \<and>
   pop Option.is_none undefined_last [Some 1, Some 3, Some 2] = (Some (Some 1), [Some 2, Some 3]) \<and>
   Some 1 \<in># mset [Some 1, Some 3, Some (2::nat)] \<and>
   undefined_last (Some 1) (Some 1) \<le> 0 \<and> undefined_last (Some 1) (Some 3) \<le> 0 \<and>
   undefined_last (Some 1) (Some 2) \<le> 0 \<and>
   mset [Some 2, Some (3::nat)] = mset [Some 1, Some 3, Some 2] - {#Some 1#}"
proof -
  let ?ops = "[Push None, Pop, Push (Some 3), Push (Some 1), Push (Some 2), Push (Some 1), Pop]"
  let ?h = "[Some 1, Some 3, Some (2::nat)]"
  have tp: "total_preorder undefined_last" by (rule undefined_last_total_preorder)
  have run: "?h = run_ops Option.is_none undefined_last ?ops []"
    by (simp add: push_def pop_def bubbleUp.simps bubbleDown.simps swap_def undefined_last_def Let_def)
  have ne: "?h \<noteq> []" by simp
  have stored: "\<forall>y \<in># mset ?h. \<not> Option.is_none y" by simp
  obtain x heap' where r: "pop Option.is_none undefined_last ?h = (Some x, heap')"
    "x \<in># mset ?h" "\<forall>y \<in># mset ?h. undefined_last x y \<le> 0"
    "(\<forall>y \<in># mset ?h. \<not> Option.is_none y) \<longrightarrow> mset heap' = mset ?h - {#x#}"
    using pop_minimal[OF tp run ne] by blast
  have ev: "pop Option.is_none undefined_last ?h = (Some (Some 1), [Some 2, Some 3])"
    by (simp add: pop_def bubbleDown.simps swap_def undefined_last_def Let_def)
  have x: "x = Some 1" "heap' = [Some 2, Some 3]" using r(1) ev by simp_all
  have "mset [Some 2, Some (3::nat)] = mset ?h - {#Some 1#}" using r(4) stored x by blast
  moreover have "undefined_last (Some 1) (Some 1) \<le> 0" "undefined_last (Some 1) (Some 3) \<le> 0"
    "undefined_last (Some 1) (Some 2) \<le> 0" using r(3) x by simp_all
  moreover have "Some 1 \<in># mset ?h" using r(2) x by simp
  ultimately show ?thesis using tp run[symmetric] ev by simp
qed

section \<open>The world and the drainage enforcer (World.fillSinks)\<close>

text \<open>
  The class \<open>World\<close> is a record of its arrays. Cell indices and neighbour indices are
  natural numbers (the neighbour lists come from the Delaunay triangulation and hold no
  negative index). Elevations are reals: a \<open>Float32Array\<close> cell holds a real number that the
  rounding function \<open>fround\<close> leaves unchanged, and a store into the array rounds by
  \<open>fround\<close>, which is a parameter of the model. NaN and the infinities are not modelled.
  The constant \<open>epsilon\<close> is 1e-5; only its being positive matters.

  Failures are values: \<open>TypeError\<close> is reading \<open>.length\<close> of \<open>undefined\<close>, which is what
  \<open>this.adjacency[u]\<close> gives for an index outside the array.
  In \<open>fillSinks\<close> a neighbour index \<open>v\<close> outside the arrays is pushed on the heap (the writes
  to the typed arrays are ignored) and the run ends in a TypeError when it is popped; the
  model reports the TypeError at the push.
\<close>

datatype error = TypeError | NotANumber

record world =
  points :: "real list"
  adjacency :: "nat list list"
  elevations :: "real list"
  moisture :: "real list"

definition cellCount :: "world \<Rightarrow> nat" where
  "cellCount w = length (points w) div 2"

definition epsilon :: real where
  "epsilon = 1 / 100000"

definition elev_compare :: "real list \<Rightarrow> nat comparator" where
  "elev_compare elev a b = elev ! a - elev ! b"

text \<open>
  The state of \<open>fillSinks\<close> is the elevation array, the array \<open>visited\<close> and the array of the
  heap. \<open>seed_cells\<close> is the first loop (every cell with elevation at most 0 is pushed and
  marked), \<open>visit_neighbors\<close> is the loop over the neighbours \<open>v\<close> of the popped cell \<open>u\<close>, and
  \<open>fill_loop\<close> is the loop \<open>while (heap.length > 0)\<close>. The heap is a \<open>MinHeap<number>\<close> of cell
  indices, none of which is the value \<open>undefined\<close>: \<open>pop\<close> is called with the predicate
  \<open>\<lambda>v. False\<close>.
\<close>

type_synonym fill_state = "real list \<times> bool list \<times> nat list"

fun seed_cells :: "nat list \<Rightarrow> fill_state \<Rightarrow> fill_state" where
  "seed_cells [] s = s"
| "seed_cells (i # is) (elev, visited, heap) =
     (if i < length elev \<and> elev ! i \<le> 0
      then seed_cells is (elev, visited[i := True], push (elev_compare elev) i heap)
      else seed_cells is (elev, visited, heap))"

fun visit_neighbors :: "(real \<Rightarrow> real) \<Rightarrow> nat \<Rightarrow> nat list \<Rightarrow> fill_state \<Rightarrow> error + fill_state" where
  "visit_neighbors fround u [] s = Inr s"
| "visit_neighbors fround u (v # vs) (elev, visited, heap) =
     (if length visited \<le> v then Inl TypeError
      else if visited ! v then visit_neighbors fround u vs (elev, visited, heap)
      else (let elev' = (if elev ! v < elev ! u
                         then elev[v := fround (elev ! u + epsilon)] else elev);
                visited' = visited[v := True];
                heap' = push (elev_compare elev') v heap
            in visit_neighbors fround u vs (elev', visited', heap')))"

definition fill_measure :: "fill_state \<Rightarrow> nat" where
  "fill_measure s = (case s of (elev, visited, heap) \<Rightarrow>
     2 * length (filter (\<lambda>b. \<not> b) visited) + length heap)"

lemma unvisited_update:
  "v < length visited \<Longrightarrow> \<not> visited ! v \<Longrightarrow>
   Suc (length (filter (\<lambda>b. \<not> b) (visited[v := True]))) = length (filter (\<lambda>b. \<not> b) visited)"
proof (induction visited arbitrary: v)
  case Nil
  then show ?case by simp
next
  case (Cons a visited)
  then show ?case by (cases v) auto
qed

lemma visit_neighbors_measure:
  "visit_neighbors fround u vs s = Inr s' \<Longrightarrow> fill_measure s' \<le> fill_measure s"
proof (induction fround u vs s rule: visit_neighbors.induct)
  case (1 fround u s)
  then show ?case by simp
next
  case (2 fround u v vs elev visited heap)
  show ?case
  proof (cases "visited ! v")
    case True
    then show ?thesis using 2 by (auto split: if_splits)
  next
    case False
    then have v: "v < length visited" using "2.prems" by (auto split: if_splits)
    define elev' where "elev' = (if elev ! v < elev ! u then elev[v := fround (elev ! u + epsilon)] else elev)"
    have "visit_neighbors fround u vs (elev', visited[v := True], push (elev_compare elev') v heap) = Inr s'"
      using "2.prems" False v by (simp add: elev'_def Let_def)
    then have "fill_measure s' \<le> fill_measure (elev', visited[v := True], push (elev_compare elev') v heap)"
      using "2.IH"(2)[OF _ False elev'_def refl refl] v by simp
    also have "\<dots> \<le> fill_measure (elev, visited, heap)"
      using unvisited_update[OF v False] by (simp add: fill_measure_def)
    finally show ?thesis .
  qed
qed

function fill_loop :: "(real \<Rightarrow> real) \<Rightarrow> nat list list \<Rightarrow> fill_state \<Rightarrow> error + real list" where
  "fill_loop fround adj (elev, visited, heap) =
     (if length heap > 0 then
        (case pop (\<lambda>v. False) (elev_compare elev) heap of
           (None, heap') \<Rightarrow> Inl TypeError
         | (Some u, heap') \<Rightarrow>
             if length adj \<le> u then Inl TypeError
             else (case visit_neighbors fround u (adj ! u) (elev, visited, heap') of
                     Inl e \<Rightarrow> Inl e
                   | Inr s' \<Rightarrow> fill_loop fround adj s'))
      else Inr elev)"
  by pat_completeness auto
termination
proof (relation "measure (\<lambda>(fround, adj, s). fill_measure s)")
  show "wf (measure (\<lambda>(fround, adj, s). fill_measure s))" by simp
next
  fix fround :: "real \<Rightarrow> real" and adj :: "nat list list" and elev visited heap x1 heap' u s'
  assume h: "0 < length (heap :: nat list)"
    and p: "(x1, heap') = pop (\<lambda>v. False) (elev_compare elev) heap"
    and v: "visit_neighbors fround u (adj ! u) (elev, visited, heap') = Inr s'"
  have "length heap' = length heap - 1" using length_pop[of "\<lambda>v. False" "elev_compare elev" heap] p[symmetric] by simp
  then have "fill_measure (elev, visited, heap') < fill_measure (elev, visited, heap)"
    using h by (simp add: fill_measure_def)
  then show "((fround, adj, s'), (fround, adj, elev, visited, heap)) \<in> measure (\<lambda>(fround, adj, s). fill_measure s)"
    using visit_neighbors_measure[OF v] by simp
qed

definition fillSinks :: "(real \<Rightarrow> real) \<Rightarrow> world \<Rightarrow> error + world" where
  "fillSinks fround w =
     (let s = seed_cells [0..<cellCount w]
                (elevations w, replicate (cellCount w) False, [])
      in case fill_loop fround (adjacency w) s of
           Inl e \<Rightarrow> Inl e
         | Inr elev \<Rightarrow> Inr (w\<lparr>elevations := elev\<rparr>))"

subsection \<open>The loop invariant of fillSinks\<close>

text \<open>
  \<open>neighbors_in_range\<close>: every cached neighbour index is a cell index.
  \<open>float_store\<close>: rounding is monotone and leaves a rounded value unchanged.
  \<open>representable\<close>: every value of the list is a value of the array (unchanged by rounding).
  \<open>reachable\<close>: the cells reached from a cell with elevation at most 0 by following cached
  neighbour lists.
  \<open>drains\<close>: inside the set \<open>S\<close>, the cell has a chain of cells, each in the neighbour list of
  the next and not lower than it, that ends at a cell with elevation at most 0.
\<close>

definition neighbors_in_range :: "nat list list \<Rightarrow> bool" where
  "neighbors_in_range adj \<longleftrightarrow> (\<forall>ns \<in> set adj. \<forall>v \<in> set ns. v < length adj)"

definition float_store :: "(real \<Rightarrow> real) \<Rightarrow> bool" where
  "float_store fround \<longleftrightarrow>
     (\<forall>x y. x \<le> y \<longrightarrow> fround x \<le> fround y) \<and> (\<forall>x. fround (fround x) = fround x)"

definition representable :: "(real \<Rightarrow> real) \<Rightarrow> real list \<Rightarrow> bool" where
  "representable fround xs \<longleftrightarrow> (\<forall>x \<in> set xs. fround x = x)"

inductive_set reachable :: "nat list list \<Rightarrow> real list \<Rightarrow> nat set"
  for adj :: "nat list list" and elev :: "real list" where
  seed: "i < length elev \<Longrightarrow> elev ! i \<le> 0 \<Longrightarrow> i \<in> reachable adj elev"
| step: "u \<in> reachable adj elev \<Longrightarrow> u < length adj \<Longrightarrow> v \<in> set (adj ! u) \<Longrightarrow>
         v \<in> reachable adj elev"

inductive drains :: "nat list list \<Rightarrow> real list \<Rightarrow> nat set \<Rightarrow> nat \<Rightarrow> bool"
  for adj :: "nat list list" and elev :: "real list" and S :: "nat set" where
  sea: "v \<in> S \<Longrightarrow> v < length elev \<Longrightarrow> elev ! v \<le> 0 \<Longrightarrow> drains adj elev S v"
| up: "drains adj elev S u \<Longrightarrow> v \<in> S \<Longrightarrow> u < length adj \<Longrightarrow> v \<in> set (adj ! u) \<Longrightarrow>
       elev ! u \<le> elev ! v \<Longrightarrow> drains adj elev S v"

lemma drains_in: "drains adj elev S v \<Longrightarrow> v \<in> S"
  by (induction rule: drains.induct) auto

lemma drains_mono:
  assumes "drains adj elev S v" "S \<subseteq> S'" "\<forall>x \<in> S. elev' ! x = elev ! x" "length elev' = length elev"
  shows "drains adj elev' S' v"
  using assms
proof (induction rule: drains.induct)
  case (sea v)
  then show ?case by (intro drains.sea) auto
next
  case (up u v)
  have "u \<in> S" using up.hyps(1) by (rule drains_in)
  then have e: "elev' ! u \<le> elev' ! v" using up.hyps up.prems by simp
  have d: "drains adj elev' S' u" using up.IH up.prems by blast
  have "v \<in> S'" using up.hyps up.prems by blast
  then show ?case using up.hyps(3,4) e by (intro drains.up[OF d])
qed

definition visited_set :: "bool list \<Rightarrow> nat set" where
  "visited_set visited = {x. x < length visited \<and> visited ! x}"

text \<open>The invariant of the loops of fillSinks; \<open>cur\<close> is the cell whose neighbours are being
  scanned (\<open>None\<close> between two iterations of the outer loop).\<close>

definition fill_inv ::
  "(real \<Rightarrow> real) \<Rightarrow> nat list list \<Rightarrow> real list \<Rightarrow> nat option \<Rightarrow> fill_state \<Rightarrow> bool" where
  "fill_inv fround adj elev0 cur s = (case s of (elev, visited, heap) \<Rightarrow>
     length elev = length elev0 \<and> length visited = length elev0 \<and>
     (\<forall>x \<in> set heap. x \<in> visited_set visited) \<and>
     (\<forall>i < length elev0. elev0 ! i \<le> 0 \<longrightarrow> visited ! i) \<and>
     (\<forall>v \<in> visited_set visited. drains adj elev (visited_set visited) v) \<and>
     (\<forall>v \<in> visited_set visited. v \<in> reachable adj elev0) \<and>
     (\<forall>v < length elev0. elev0 ! v \<le> elev ! v) \<and>
     (\<forall>v < length elev0. elev ! v \<noteq> elev0 ! v \<longrightarrow> visited ! v \<and> 0 < elev0 ! v) \<and>
     representable fround elev \<and>
     (\<forall>u \<in> visited_set visited. u \<notin> set heap \<and> Some u \<noteq> cur \<longrightarrow>
          (\<forall>v \<in> set (adj ! u). v \<in> visited_set visited)))"

lemma set_push: "set (push c x h) = insert x (set h)"
proof -
  have "set_mset (mset (push c x h)) = set_mset (mset h + {#x#})"
    by (simp only: mset_push)
  then show ?thesis by simp
qed

lemma visited_set_update:
  "v < length visited \<Longrightarrow> visited_set (visited[v := True]) = insert v (visited_set visited)"
  by (auto simp: visited_set_def nth_list_update)

lemma visit_one:
  assumes fs: "float_store fround"
    and adj: "length adj = length elev0"
    and inv: "fill_inv fround adj elev0 (Some u) (elev, visited, heap)"
    and u: "u \<in> visited_set visited"
    and v: "v \<in> set (adj ! u)" "v < length visited" "\<not> visited ! v"
    and elev': "elev' = (if elev ! v < elev ! u then elev[v := fround (elev ! u + epsilon)] else elev)"
  shows "fill_inv fround adj elev0 (Some u)
           (elev', visited[v := True], push (elev_compare elev') v heap)"
proof -
  let ?S = "visited_set visited"
  let ?S' = "visited_set (visited[v := True])"
  have len: "length elev = length elev0" "length visited = length elev0"
    and heap: "\<forall>x \<in> set heap. x \<in> ?S"
    and seeds: "\<forall>i < length elev0. elev0 ! i \<le> 0 \<longrightarrow> visited ! i"
    and dr: "\<forall>x \<in> ?S. drains adj elev ?S x"
    and re: "\<forall>x \<in> ?S. x \<in> reachable adj elev0"
    and ge: "\<forall>x < length elev0. elev0 ! x \<le> elev ! x"
    and ch: "\<forall>x < length elev0. elev ! x \<noteq> elev0 ! x \<longrightarrow> visited ! x \<and> 0 < elev0 ! x"
    and rp: "representable fround elev"
    and cl: "\<forall>x \<in> ?S. x \<notin> set heap \<and> Some x \<noteq> Some u \<longrightarrow> (\<forall>y \<in> set (adj ! x). y \<in> ?S)"
    using inv unfolding fill_inv_def by simp_all
  have S': "?S' = insert v ?S" using v by (simp add: visited_set_update)
  have vS: "v \<notin> ?S" using v by (simp add: visited_set_def)
  have uN: "u < length elev0" "visited ! u" "u \<noteq> v" using u v len by (auto simp: visited_set_def)
  have lenE: "length elev' = length elev0" using len by (simp add: elev')
  have other: "\<And>x. x \<noteq> v \<Longrightarrow> elev' ! x = elev ! x" by (simp add: elev')
  have same: "\<forall>x \<in> ?S. elev' ! x = elev ! x" using vS other by metis
  have eu: "fround (elev ! u) = elev ! u"
    using rp uN len unfolding representable_def by (metis nth_mem)
  have up: "elev ! u \<le> fround (elev ! u + epsilon)"
  proof -
    have "fround (elev ! u) \<le> fround (elev ! u + epsilon)"
      using fs unfolding float_store_def by (simp add: epsilon_def)
    then show ?thesis using eu by simp
  qed
  have uv: "elev' ! u \<le> elev' ! v" "elev ! v \<le> elev' ! v"
    using up uN v len by (auto simp: elev' nth_list_update)
  have v0: "elev0 ! v = elev ! v" "0 < elev0 ! v"
    using ch seeds v len by (auto simp: not_le[symmetric])
  have c1: "\<forall>x \<in> set (push (elev_compare elev') v heap). x \<in> ?S'"
    using heap by (simp add: set_push S')
  have c2: "\<forall>i < length elev0. elev0 ! i \<le> 0 \<longrightarrow> visited[v := True] ! i"
    using seeds len v by (simp add: nth_list_update)
  have sub: "?S \<subseteq> ?S'" using S' by blast
  have mono: "drains adj elev' ?S' x" if "x \<in> ?S" for x
  proof -
    have "drains adj elev ?S x" using dr that by blast
    moreover have "length elev' = length elev" using lenE len by simp
    ultimately show ?thesis using drains_mono[OF _ sub same] by blast
  qed
  have "drains adj elev' ?S' v"
  proof (rule drains.up[of _ _ _ u])
    show "drains adj elev' ?S' u" using mono u by blast
    show "v \<in> ?S'" using S' by blast
    show "u < length adj" using uN adj by simp
    show "v \<in> set (adj ! u)" using v by blast
    show "elev' ! u \<le> elev' ! v" using uv by blast
  qed
  then have c3: "\<forall>x \<in> ?S'. drains adj elev' ?S' x"
    using mono unfolding S' by blast
  have "v \<in> reachable adj elev0"
  proof (rule reachable.step[of u])
    show "u \<in> reachable adj elev0" using re u by blast
    show "u < length adj" using uN adj by simp
    show "v \<in> set (adj ! u)" using v by blast
  qed
  then have c4: "\<forall>x \<in> ?S'. x \<in> reachable adj elev0"
    using re unfolding S' by blast
  have c5: "\<forall>x < length elev0. elev0 ! x \<le> elev' ! x"
  proof (intro allI impI)
    fix x assume "x < length elev0"
    then show "elev0 ! x \<le> elev' ! x" using ge uv(2) other[of x] by (cases "x = v") auto
  qed
  have c6: "\<forall>x < length elev0. elev' ! x \<noteq> elev0 ! x \<longrightarrow> visited[v := True] ! x \<and> 0 < elev0 ! x"
  proof (intro allI impI)
    fix x assume x: "x < length elev0" "elev' ! x \<noteq> elev0 ! x"
    show "visited[v := True] ! x \<and> 0 < elev0 ! x"
    proof (cases "x = v")
      case True
      then show ?thesis using v0 v by simp
    next
      case False
      then have "elev ! x \<noteq> elev0 ! x" using x other by simp
      then show ?thesis using ch x False by simp
    qed
  qed
  have c7: "representable fround elev'"
    unfolding representable_def
  proof
    fix x assume "x \<in> set elev'"
    then have "x \<in> set elev \<or> x = fround (elev ! u + epsilon)"
      using set_update_subset_insert[of elev v "fround (elev ! u + epsilon)"]
      by (auto simp: elev' split: if_splits)
    moreover have "fround (fround (elev ! u + epsilon)) = fround (elev ! u + epsilon)"
      using fs unfolding float_store_def by blast
    ultimately show "fround x = x" using rp unfolding representable_def by auto
  qed
  have c8: "\<forall>x \<in> ?S'. x \<notin> set (push (elev_compare elev') v heap) \<and> Some x \<noteq> Some u \<longrightarrow>
              (\<forall>y \<in> set (adj ! x). y \<in> ?S')"
    using cl unfolding set_push S' by blast
  have c0: "length (visited[v := True]) = length elev0" using len by simp
  show ?thesis
    unfolding fill_inv_def prod.case
    by (intro conjI) (fact lenE c0 c1 c2 c3 c4 c5 c6 c7 c8)+
qed

lemma visit_neighbors_inv:
  assumes fs: "float_store fround" and adj: "length adj = length elev0"
  shows "fill_inv fround adj elev0 (Some u) s \<Longrightarrow> u \<in> visited_set (fst (snd s)) \<Longrightarrow>
         set vs \<subseteq> set (adj ! u) \<Longrightarrow> \<forall>v \<in> set vs. v < length elev0 \<Longrightarrow>
         \<exists>s'. visit_neighbors fround u vs s = Inr s' \<and> fill_inv fround adj elev0 (Some u) s' \<and>
              visited_set (fst (snd s)) \<subseteq> visited_set (fst (snd s')) \<and>
              set vs \<subseteq> visited_set (fst (snd s'))"
proof (induction vs arbitrary: s)
  case Nil
  then show ?case by simp
next
  case (Cons v vs)
  obtain elev visited heap where s: "s = (elev, visited, heap)" by (cases s) auto
  have len: "length visited = length elev0"
    using Cons.prems(1) unfolding s fill_inv_def by simp
  have v: "v \<in> set (adj ! u)" "v < length visited" using Cons.prems len by auto
  have vs: "set vs \<subseteq> set (adj ! u)" "\<forall>v \<in> set vs. v < length elev0" using Cons.prems by auto
  show ?case
  proof (cases "visited ! v")
    case True
    have "\<exists>s'. visit_neighbors fround u vs s = Inr s' \<and> fill_inv fround adj elev0 (Some u) s' \<and>
              visited_set (fst (snd s)) \<subseteq> visited_set (fst (snd s')) \<and>
              set vs \<subseteq> visited_set (fst (snd s'))"
      using Cons.IH[OF Cons.prems(1,2) vs] .
    then obtain s' where s': "visit_neighbors fround u vs s = Inr s'"
        "fill_inv fround adj elev0 (Some u) s'"
        "visited_set (fst (snd s)) \<subseteq> visited_set (fst (snd s'))"
        "set vs \<subseteq> visited_set (fst (snd s'))" by blast
    have "visit_neighbors fround u (v # vs) s = Inr s'"
      using True v s' unfolding s by simp
    moreover have "v \<in> visited_set (fst (snd s'))"
      using True v s'(3) unfolding s by (auto simp: visited_set_def)
    ultimately show ?thesis using s' by auto
  next
    case False
    define elev' where "elev' = (if elev ! v < elev ! u then elev[v := fround (elev ! u + epsilon)] else elev)"
    define t where "t = (elev', visited[v := True], push (elev_compare elev') v heap)"
    have inv_t: "fill_inv fround adj elev0 (Some u) t"
      unfolding t_def
      using visit_one[OF fs adj Cons.prems(1)[unfolded s] _ v False elev'_def] Cons.prems(2)
      unfolding s by simp
    have grow: "visited_set visited \<subseteq> visited_set (fst (snd t))" "v \<in> visited_set (fst (snd t))"
      using v by (auto simp: t_def visited_set_update)
    then have ut: "u \<in> visited_set (fst (snd t))" using Cons.prems(2) unfolding s by auto
    have "\<exists>s'. visit_neighbors fround u vs t = Inr s' \<and> fill_inv fround adj elev0 (Some u) s' \<and>
              visited_set (fst (snd t)) \<subseteq> visited_set (fst (snd s')) \<and>
              set vs \<subseteq> visited_set (fst (snd s'))"
      using Cons.IH[OF inv_t ut vs] .
    then obtain s' where s': "visit_neighbors fround u vs t = Inr s'"
        "fill_inv fround adj elev0 (Some u) s'"
        "visited_set (fst (snd t)) \<subseteq> visited_set (fst (snd s'))"
        "set vs \<subseteq> visited_set (fst (snd s'))" by blast
    have "visit_neighbors fround u (v # vs) s = Inr s'"
      using False v s'(1) unfolding s t_def elev'_def by (simp add: Let_def)
    moreover have "visited_set (fst (snd s)) \<subseteq> visited_set (fst (snd s'))"
      using grow s'(3) unfolding s by auto
    moreover have "set (v # vs) \<subseteq> visited_set (fst (snd s'))"
      using grow s'(3,4) by auto
    ultimately show ?thesis using s'(2) by blast
  qed
qed

lemma pop_member:
  assumes "h \<noteq> []"
  shows "\<exists>u h'. pop (\<lambda>v. False) c h = (Some u, h') \<and> u \<in> set h \<and> set h' \<subseteq> set h \<and>
           set h \<subseteq> insert u (set h') \<and> length h' < length h"
proof -
  have m: "mset (snd (pop (\<lambda>v. False) c h)) = mset h - {#h ! 0#}" using mset_pop[OF assms, of "\<lambda>v. False" c] by simp
  have 1: "set (snd (pop (\<lambda>v. False) c h)) \<subseteq> set h"
    using m by (metis in_diffD set_mset_mset subsetI)
  have 2: "set h \<subseteq> insert (h ! 0) (set (snd (pop (\<lambda>v. False) c h)))"
  proof
    fix x assume "x \<in> set h"
    then have "x \<in># mset h" by simp
    then have "x = h ! 0 \<or> x \<in># mset h - {#h ! 0#}"
      by (auto simp: in_diff_count)
    then show "x \<in> insert (h ! 0) (set (snd (pop (\<lambda>v. False) c h)))"
      using m by (metis insert_iff set_mset_mset)
  qed
  have 3: "pop (\<lambda>v. False) c h = (Some (h ! 0), snd (pop (\<lambda>v. False) c h))"
    using pop_nonempty[OF assms, of "\<lambda>v. False" c] by (metis prod.collapse)
  have 4: "h ! 0 \<in> set h" using assms by simp
  have 5: "length (snd (pop (\<lambda>v. False) c h)) < length h" using assms by simp
  show ?thesis using 1 2 3 4 5 by blast
qed

lemma fill_loop_inv:
  assumes fs: "float_store fround" and adj: "length adj = length elev0"
    and nb: "neighbors_in_range adj"
  shows "fill_inv fround adj elev0 None s \<Longrightarrow>
         \<exists>elev' visited'. fill_loop fround adj s = Inr elev' \<and>
            fill_inv fround adj elev0 None (elev', visited', [])"
proof (induction "fill_measure s" arbitrary: s rule: less_induct)
  case less
  obtain elev visited heap where s: "s = (elev, visited, heap)" by (cases s) auto
  show ?case
  proof (cases "heap = []")
    case True
    then have "fill_loop fround adj s = Inr elev" unfolding s by simp
    then show ?thesis using less.prems True unfolding s by blast
  next
    case False
    obtain u heap' where p: "pop (\<lambda>v. False) (elev_compare elev) heap = (Some u, heap')" "u \<in> set heap"
      "set heap' \<subseteq> set heap" "set heap \<subseteq> insert u (set heap')" "length heap' < length heap"
      using pop_member[OF False, of "elev_compare elev"] by blast
    have inv: "fill_inv fround adj elev0 None (elev, visited, heap)" using less.prems unfolding s .
    have uS: "u \<in> visited_set visited" using inv p(2) unfolding fill_inv_def by simp
    have len: "length visited = length elev0" using inv unfolding fill_inv_def by simp
    have uN: "u < length adj" using uS len adj by (simp add: visited_set_def)
    have inv1: "fill_inv fround adj elev0 (Some u) (elev, visited, heap')"
      using inv p(3,4) unfolding fill_inv_def prod.case by (simp add: subset_iff) blast
    have rng: "\<forall>v \<in> set (adj ! u). v < length elev0"
      using nb uN adj unfolding neighbors_in_range_def by (metis nth_mem)
    have "\<exists>s'. visit_neighbors fround u (adj ! u) (elev, visited, heap') = Inr s' \<and>
              fill_inv fround adj elev0 (Some u) s' \<and>
              visited_set (fst (snd (elev, visited, heap'))) \<subseteq> visited_set (fst (snd s')) \<and>
              set (adj ! u) \<subseteq> visited_set (fst (snd s'))"
      using visit_neighbors_inv[OF fs adj inv1 _ subset_refl rng] uS by simp
    then obtain s' where s': "visit_neighbors fround u (adj ! u) (elev, visited, heap') = Inr s'"
        "fill_inv fround adj elev0 (Some u) s'"
        "set (adj ! u) \<subseteq> visited_set (fst (snd s'))" by blast
    have inv2: "fill_inv fround adj elev0 None s'"
      using s'(2,3) unfolding fill_inv_def by (cases s') (simp add: subset_iff, blast)
    have "fill_measure s' \<le> fill_measure (elev, visited, heap')"
      using visit_neighbors_measure[OF s'(1)] .
    also have "\<dots> < fill_measure s" using p(5) unfolding s by (simp add: fill_measure_def)
    finally have "\<exists>elev' visited'. fill_loop fround adj s' = Inr elev' \<and>
            fill_inv fround adj elev0 None (elev', visited', [])"
      using less.hyps[OF _ inv2] by blast
    moreover have "fill_loop fround adj s = fill_loop fround adj s'"
      unfolding s using False p(1) uN s'(1) by simp
    ultimately show ?thesis by simp
  qed
qed

text \<open>
  \<open>monotone_path nb elev p\<close>: the non-empty list \<open>p\<close> of cells is a path whose steps satisfy
  the neighbour relation \<open>nb\<close>, whose elevation never increases from one cell to the next,
  and whose last cell has elevation at most 0.
  \<open>listed_by adj a b\<close>: \<open>a\<close> is in the cached neighbour list of \<open>b\<close>;
  \<open>lists_neighbor adj a b\<close>: \<open>b\<close> is in the cached neighbour list of \<open>a\<close>.
\<close>

fun monotone_path :: "(nat \<Rightarrow> nat \<Rightarrow> bool) \<Rightarrow> real list \<Rightarrow> nat list \<Rightarrow> bool" where
  "monotone_path nb elev [] = False"
| "monotone_path nb elev [c] = (c < length elev \<and> elev ! c \<le> 0)"
| "monotone_path nb elev (a # b # p) =
     (nb a b \<and> elev ! b \<le> elev ! a \<and> monotone_path nb elev (b # p))"

definition listed_by :: "nat list list \<Rightarrow> nat \<Rightarrow> nat \<Rightarrow> bool" where
  "listed_by adj a b \<longleftrightarrow> b < length adj \<and> a \<in> set (adj ! b)"

definition lists_neighbor :: "nat list list \<Rightarrow> nat \<Rightarrow> nat \<Rightarrow> bool" where
  "lists_neighbor adj a b \<longleftrightarrow> a < length adj \<and> b \<in> set (adj ! a)"

definition symmetric_adjacency :: "nat list list \<Rightarrow> bool" where
  "symmetric_adjacency adj \<longleftrightarrow>
     (\<forall>a < length adj. \<forall>b \<in> set (adj ! a). b < length adj \<and> a \<in> set (adj ! b))"

lemma seed_cells_result:
  "set is \<subseteq> {..<length visited} \<Longrightarrow>
   \<exists>visited' heap'. seed_cells is (elev, visited, heap) = (elev, visited', heap') \<and>
     length visited' = length visited \<and>
     visited_set visited' = visited_set visited \<union> {i \<in> set is. i < length elev \<and> elev ! i \<le> 0} \<and>
     set heap' = set heap \<union> {i \<in> set is. i < length elev \<and> elev ! i \<le> 0}"
proof (induction "is" arbitrary: visited heap)
  case Nil
  then show ?case by simp
next
  case (Cons i "is")
  show ?case
  proof (cases "i < length elev \<and> elev ! i \<le> 0")
    case True
    have i: "i < length visited" using Cons.prems by simp
    have "set is \<subseteq> {..<length (visited[i := True])}" using Cons.prems by simp
    from Cons.IH[OF this, of "push (elev_compare elev) i heap"]
    obtain visited' heap' where r:
      "seed_cells is (elev, visited[i := True], push (elev_compare elev) i heap) = (elev, visited', heap')"
      "length visited' = length (visited[i := True])"
      "visited_set visited' = visited_set (visited[i := True]) \<union> {i \<in> set is. i < length elev \<and> elev ! i \<le> 0}"
      "set heap' = set (push (elev_compare elev) i heap) \<union> {i \<in> set is. i < length elev \<and> elev ! i \<le> 0}"
      by blast
    have "seed_cells (i # is) (elev, visited, heap) = (elev, visited', heap')"
      using True r(1) by simp
    moreover have "length visited' = length visited" using r(2) by simp
    moreover have "visited_set visited' =
        visited_set visited \<union> {j \<in> set (i # is). j < length elev \<and> elev ! j \<le> 0}"
      using r(3) True i by (auto simp: visited_set_update)
    moreover have "set heap' = set heap \<union> {j \<in> set (i # is). j < length elev \<and> elev ! j \<le> 0}"
      using r(4) True by (auto simp: set_push)
    ultimately show ?thesis by blast
  next
    case False
    have "set is \<subseteq> {..<length visited}" using Cons.prems by simp
    from Cons.IH[OF this, of heap]
    obtain visited' heap' where r:
      "seed_cells is (elev, visited, heap) = (elev, visited', heap')"
      "length visited' = length visited"
      "visited_set visited' = visited_set visited \<union> {i \<in> set is. i < length elev \<and> elev ! i \<le> 0}"
      "set heap' = set heap \<union> {i \<in> set is. i < length elev \<and> elev ! i \<le> 0}"
      by blast
    have "seed_cells (i # is) (elev, visited, heap) = (elev, visited', heap')"
      using False r(1) by auto
    moreover have "visited_set visited' =
        visited_set visited \<union> {j \<in> set (i # is). j < length elev \<and> elev ! j \<le> 0}"
      using r(3) False by auto
    moreover have "set heap' = set heap \<union> {j \<in> set (i # is). j < length elev \<and> elev ! j \<le> 0}"
      using r(4) False by auto
    ultimately show ?thesis using r(2) by blast
  qed
qed

lemma seed_cells_inv:
  assumes rp: "representable fround elev0"
  shows "\<exists>visited heap. seed_cells [0..<length elev0] (elev0, replicate (length elev0) False, []) =
            (elev0, visited, heap) \<and> fill_inv fround adj elev0 None (elev0, visited, heap)"
proof -
  define seeds where "seeds = {i. i < length elev0 \<and> elev0 ! i \<le> 0}"
  have "set [0..<length elev0] \<subseteq> {..<length (replicate (length elev0) False)}" by auto
  from seed_cells_result[OF this, of elev0 "[]"]
  obtain visited heap where r:
    "seed_cells [0..<length elev0] (elev0, replicate (length elev0) False, []) = (elev0, visited, heap)"
    "length visited = length (replicate (length elev0) False)"
    "visited_set visited = visited_set (replicate (length elev0) False) \<union>
        {i \<in> set [0..<length elev0]. i < length elev0 \<and> elev0 ! i \<le> 0}"
    "set heap = set [] \<union> {i \<in> set [0..<length elev0]. i < length elev0 \<and> elev0 ! i \<le> 0}"
    by blast
  have r2: "length visited = length elev0" using r(2) by simp
  have e: "visited_set (replicate (length elev0) False) = {}"
    by (simp add: visited_set_def)
  have f: "{i \<in> set [0..<length elev0]. i < length elev0 \<and> elev0 ! i \<le> 0} = seeds"
    unfolding seeds_def by auto
  have vs: "visited_set visited = seeds" using r(3) e f by simp
  have hp: "set heap = seeds" using r(4) f by simp
  have sd: "\<And>i. i \<in> seeds \<Longrightarrow> i < length elev0 \<and> elev0 ! i \<le> 0"
    unfolding seeds_def by simp
  have c1: "\<forall>x \<in> set heap. x \<in> visited_set visited" using vs hp by simp
  have c2: "\<forall>i < length elev0. elev0 ! i \<le> 0 \<longrightarrow> visited ! i"
  proof (intro allI impI)
    fix i assume "i < length elev0" "elev0 ! i \<le> 0"
    then have "i \<in> visited_set visited" unfolding vs seeds_def by simp
    then show "visited ! i" by (simp add: visited_set_def)
  qed
  have c3: "\<forall>v \<in> visited_set visited. drains adj elev0 (visited_set visited) v"
  proof
    fix v assume v: "v \<in> visited_set visited"
    then have "v < length elev0" "elev0 ! v \<le> 0" using sd vs by simp_all
    then show "drains adj elev0 (visited_set visited) v" using v by (intro drains.sea)
  qed
  have c4: "\<forall>v \<in> visited_set visited. v \<in> reachable adj elev0"
  proof
    fix v assume v: "v \<in> visited_set visited"
    then have "v < length elev0" "elev0 ! v \<le> 0" using sd vs by simp_all
    then show "v \<in> reachable adj elev0" by (intro reachable.seed)
  qed
  have c5: "\<forall>v < length elev0. elev0 ! v \<le> elev0 ! v" by simp
  have c6: "\<forall>v < length elev0. elev0 ! v \<noteq> elev0 ! v \<longrightarrow> visited ! v \<and> 0 < elev0 ! v" by simp
  have c8: "\<forall>u \<in> visited_set visited. u \<notin> set heap \<and> Some u \<noteq> None \<longrightarrow>
          (\<forall>v \<in> set (adj ! u). v \<in> visited_set visited)"
    using vs hp by simp
  have "fill_inv fround adj elev0 None (elev0, visited, heap)"
    unfolding fill_inv_def prod.case
    by (intro conjI) (fact refl r2 c1 c2 c3 c4 c5 c6 rp c8)+
  then show ?thesis using r(1) by blast
qed

lemma fillSinks_inv:
  assumes fs: "float_store fround"
    and rp: "representable fround (elevations w)"
    and le: "length (elevations w) = cellCount w"
    and la: "length (adjacency w) = cellCount w"
    and nb: "neighbors_in_range (adjacency w)"
  shows "\<exists>elev' visited'. fillSinks fround w = Inr (w\<lparr>elevations := elev'\<rparr>) \<and>
           fill_inv fround (adjacency w) (elevations w) None (elev', visited', [])"
proof -
  obtain visited heap where s:
    "seed_cells [0..<length (elevations w)] (elevations w, replicate (length (elevations w)) False, []) =
       (elevations w, visited, heap)"
    "fill_inv fround (adjacency w) (elevations w) None (elevations w, visited, heap)"
    using seed_cells_inv[OF rp] by blast
  have "length (adjacency w) = length (elevations w)" using le la by simp
  from fill_loop_inv[OF fs this nb s(2)]
  obtain elev' visited' where r: "fill_loop fround (adjacency w) (elevations w, visited, heap) = Inr elev'"
    "fill_inv fround (adjacency w) (elevations w) None (elev', visited', [])" by blast
  have "fillSinks fround w = Inr (w\<lparr>elevations := elev'\<rparr>)"
    unfolding fillSinks_def using s(1) r(1) le by simp
  then show ?thesis using r(2) by blast
qed

subsection \<open>Drainage monotonicity and the frame of fillSinks\<close>

lemma drains_path:
  "drains adj elev S v \<Longrightarrow> \<exists>p. monotone_path (listed_by adj) elev (v # p)"
proof (induction rule: drains.induct)
  case (sea v)
  then have "monotone_path (listed_by adj) elev [v]" by simp
  then show ?case by blast
next
  case (up u v)
  then obtain p where "monotone_path (listed_by adj) elev (u # p)" by blast
  then have "monotone_path (listed_by adj) elev (v # u # p)"
    using up.hyps by (simp add: listed_by_def)
  then show ?case by blast
qed

lemma monotone_path_symmetric:
  assumes "symmetric_adjacency adj"
  shows "monotone_path (listed_by adj) elev p \<Longrightarrow> monotone_path (lists_neighbor adj) elev p"
proof (induction "listed_by adj" elev p rule: monotone_path.induct)
  case (3 elev a b p)
  have "listed_by adj a b" using 3 by simp
  then have "lists_neighbor adj a b"
    using assms unfolding listed_by_def lists_neighbor_def symmetric_adjacency_def by blast
  then show ?case using 3 by simp
qed simp_all

lemma reachable_seeds_sub:
  assumes "length e1 = length e2" "\<forall>i < length e1. e1 ! i \<le> 0 \<longrightarrow> e2 ! i \<le> 0"
  shows "v \<in> reachable adj e1 \<Longrightarrow> v \<in> reachable adj e2"
proof (induction rule: reachable.induct)
  case (seed i)
  have "i < length e2" "e2 ! i \<le> 0" using seed assms by simp_all
  then show ?case by (rule reachable.seed)
next
  case (step u v)
  show ?case using step.IH step.hyps(2,3) by (rule reachable.step)
qed

lemma reachable_same_seeds:
  assumes "length elev' = length elev" "\<forall>i < length elev. (elev' ! i \<le> 0) = (elev ! i \<le> 0)"
  shows "reachable adj elev' = reachable adj elev"
proof (intro set_eqI iffI)
  fix v assume "v \<in> reachable adj elev'"
  then show "v \<in> reachable adj elev"
    using assms by (intro reachable_seeds_sub[of elev' elev]) simp_all
next
  fix v assume "v \<in> reachable adj elev"
  then show "v \<in> reachable adj elev'"
    using assms by (intro reachable_seeds_sub[of elev elev']) simp_all
qed

lemma reachable_visited:
  assumes inv: "fill_inv fround adj elev0 None (elev', visited', [])"
    and adj: "length adj = length elev0"
  shows "v \<in> reachable adj elev0 \<Longrightarrow> v \<in> visited_set visited'"
proof (induction rule: reachable.induct)
  case (seed i)
  then show ?case using inv unfolding fill_inv_def by (simp add: visited_set_def)
next
  case (step u v)
  have "\<forall>u \<in> visited_set visited'. \<forall>v \<in> set (adj ! u). v \<in> visited_set visited'"
    using inv unfolding fill_inv_def by simp
  then show ?case using step by blast
qed

text \<open>
  C1. After fillSinks has run (it returns a world whenever the cached neighbour indices are
  in range), every cell \<open>c\<close> with elevation above 0 that is reachable through the cached
  adjacency from a cell with elevation at most 0 is the start of a path that ends in a cell
  with elevation at most 0 and along which the elevation never increases. Each cell of the
  path is in the cached neighbour list of the next one; when the adjacency is symmetric, each
  next cell is also in the list of the cell before it.
\<close>

theorem fillSinks_drainage:
  assumes "float_store fround"
    and "representable fround (elevations w)"
    and "length (elevations w) = cellCount w"
    and "length (adjacency w) = cellCount w"
    and "neighbors_in_range (adjacency w)"
  shows "\<exists>w'. fillSinks fround w = Inr w' \<and>
           (\<forall>c \<in> reachable (adjacency w') (elevations w'). 0 < elevations w' ! c \<longrightarrow>
              (\<exists>p. monotone_path (listed_by (adjacency w')) (elevations w') (c # p) \<and>
                   (symmetric_adjacency (adjacency w') \<longrightarrow>
                      monotone_path (lists_neighbor (adjacency w')) (elevations w') (c # p))))"
proof -
  obtain elev' visited' where r: "fillSinks fround w = Inr (w\<lparr>elevations := elev'\<rparr>)"
    and inv: "fill_inv fround (adjacency w) (elevations w) None (elev', visited', [])"
    using fillSinks_inv[OF assms] by blast
  let ?adj = "adjacency w" and ?e0 = "elevations w"
  have la: "length ?adj = length ?e0" using assms by simp
  have len: "length elev' = length ?e0" using inv unfolding fill_inv_def by simp
  have ge: "\<forall>v < length ?e0. ?e0 ! v \<le> elev' ! v"
    and ch: "\<forall>v < length ?e0. elev' ! v \<noteq> ?e0 ! v \<longrightarrow> visited' ! v \<and> 0 < ?e0 ! v"
    and dr: "\<forall>v \<in> visited_set visited'. drains ?adj elev' (visited_set visited') v"
    using inv unfolding fill_inv_def by simp_all
  have seeds: "\<forall>i < length ?e0. (elev' ! i \<le> 0) = (?e0 ! i \<le> 0)"
  proof (intro allI impI)
    fix i assume i: "i < length ?e0"
    show "(elev' ! i \<le> 0) = (?e0 ! i \<le> 0)"
    proof (cases "elev' ! i = ?e0 ! i")
      case True
      then show ?thesis by simp
    next
      case False
      then have "0 < ?e0 ! i" "?e0 ! i \<le> elev' ! i" using ch ge i by simp_all
      then show ?thesis by simp
    qed
  qed
  have re: "reachable ?adj elev' = reachable ?adj ?e0"
    using reachable_same_seeds[OF len seeds] .
  have "\<exists>p. monotone_path (listed_by ?adj) elev' (c # p) \<and>
            (symmetric_adjacency ?adj \<longrightarrow> monotone_path (lists_neighbor ?adj) elev' (c # p))"
    if "c \<in> reachable ?adj elev'" for c
  proof -
    have "c \<in> visited_set visited'"
      using reachable_visited[OF inv la] that re by simp
    then have "drains ?adj elev' (visited_set visited') c" using dr by blast
    then obtain p where "monotone_path (listed_by ?adj) elev' (c # p)"
      using drains_path by blast
    then show ?thesis using monotone_path_symmetric by blast
  qed
  then show ?thesis using r by simp
qed

text \<open>
  C10. fillSinks returns the world with only the elevation array replaced; no elevation has
  decreased, and a cell whose elevation has changed had an elevation above 0 before and is
  reachable through the cached adjacency from a cell with elevation at most 0. So every cell
  with elevation at most 0 and every unreachable cell keeps its elevation.
\<close>

theorem fillSinks_frame:
  assumes "float_store fround"
    and "representable fround (elevations w)"
    and "length (elevations w) = cellCount w"
    and "length (adjacency w) = cellCount w"
    and "neighbors_in_range (adjacency w)"
  shows "\<exists>elev'. fillSinks fround w = Inr (w\<lparr>elevations := elev'\<rparr>) \<and>
           length elev' = cellCount w \<and>
           (\<forall>i < cellCount w. elevations w ! i \<le> elev' ! i) \<and>
           (\<forall>i < cellCount w. elev' ! i \<noteq> elevations w ! i \<longrightarrow>
               0 < elevations w ! i \<and> i \<in> reachable (adjacency w) (elevations w))"
proof -
  obtain elev' visited' where r: "fillSinks fround w = Inr (w\<lparr>elevations := elev'\<rparr>)"
    and inv: "fill_inv fround (adjacency w) (elevations w) None (elev', visited', [])"
    using fillSinks_inv[OF assms] by blast
  let ?adj = "adjacency w" and ?e0 = "elevations w"
  have len: "length elev' = length ?e0" "length visited' = length ?e0"
    and ge: "\<forall>v < length ?e0. ?e0 ! v \<le> elev' ! v"
    and ch: "\<forall>v < length ?e0. elev' ! v \<noteq> ?e0 ! v \<longrightarrow> visited' ! v \<and> 0 < ?e0 ! v"
    and re: "\<forall>v \<in> visited_set visited'. v \<in> reachable ?adj ?e0"
    using inv unfolding fill_inv_def by simp_all
  have "0 < ?e0 ! i \<and> i \<in> reachable ?adj ?e0" if "i < length ?e0" "elev' ! i \<noteq> ?e0 ! i" for i
  proof -
    have "visited' ! i" "0 < ?e0 ! i" using ch that by simp_all
    moreover have "i \<in> visited_set visited'" using \<open>visited' ! i\<close> that len by (simp add: visited_set_def)
    ultimately show ?thesis using re by blast
  qed
  then show ?thesis using r len ge assms(3) by auto
qed

text \<open>A world of four cells in a row, with a pit at cell 2.\<close>

definition world_ex :: world where
  "world_ex = \<lparr>points = [0, 0, 1, 0, 2, 0, 3, 0], adjacency = [[1], [0, 2], [1, 3], [2]],
     elevations = [-1, 2, 1, 3], moisture = [0, 0, 0, 0]\<rparr>"

lemma fillSinks_world_ex:
  "fillSinks (\<lambda>x. x) world_ex = Inr (world_ex\<lparr>elevations := [-1, 2, 200001 / 100000, 3]\<rparr>)"
  by (simp add: fillSinks_def cellCount_def world_ex_def upt_rec[of 0] upt_rec[of "Suc 0"] upt_rec[of 2] upt_rec[of 3] upt_rec[of 4]
      push_def pop_def bubbleUp.simps bubbleDown.simps swap_def elev_compare_def epsilon_def Let_def)

lemma world_ex_ok:
  "float_store (\<lambda>x. x)" "representable (\<lambda>x. x) (elevations world_ex)"
  "length (elevations world_ex) = cellCount world_ex"
  "length (adjacency world_ex) = cellCount world_ex"
  "neighbors_in_range (adjacency world_ex)"
  "symmetric_adjacency (adjacency world_ex)"
proof -
  show "float_store (\<lambda>x. x)" by (simp add: float_store_def)
  show "representable (\<lambda>x. x) (elevations world_ex)" by (simp add: representable_def)
  show "length (elevations world_ex) = cellCount world_ex"
    by (simp add: world_ex_def cellCount_def)
  show "length (adjacency world_ex) = cellCount world_ex"
    by (simp add: world_ex_def cellCount_def)
  show "neighbors_in_range (adjacency world_ex)"
    by (simp add: world_ex_def neighbors_in_range_def)
  show "symmetric_adjacency (adjacency world_ex)"
    by (simp add: world_ex_def symmetric_adjacency_def numeral_eq_Suc All_less_Suc)
qed

theorem fillSinks_drainage_witness:
  "float_store (\<lambda>x. x) \<and> representable (\<lambda>x. x) (elevations world_ex) \<and>
   length (elevations world_ex) = cellCount world_ex \<and>
   length (adjacency world_ex) = cellCount world_ex \<and>
   neighbors_in_range (adjacency world_ex) \<and>
   symmetric_adjacency (adjacency world_ex) \<and>
   fillSinks (\<lambda>x. x) world_ex = Inr (world_ex\<lparr>elevations := [-1, 2, 200001 / 100000, 3]\<rparr>) \<and>
   2 \<in> reachable (adjacency world_ex) [-1, 2, 200001 / 100000, 3] \<and>
   (\<exists>p. monotone_path (listed_by (adjacency world_ex)) [-1, 2, 200001 / 100000, 3] (2 # p) \<and>
        monotone_path (lists_neighbor (adjacency world_ex)) [-1, 2, 200001 / 100000, 3] (2 # p))"
proof -
  let ?e = "[-1, 2, 200001 / 100000, 3] :: real list"
  let ?w = "world_ex\<lparr>elevations := ?e\<rparr>"
  have all: "\<forall>c \<in> reachable (adjacency ?w) (elevations ?w). 0 < elevations ?w ! c \<longrightarrow>
              (\<exists>p. monotone_path (listed_by (adjacency ?w)) (elevations ?w) (c # p) \<and>
                   (symmetric_adjacency (adjacency ?w) \<longrightarrow>
                      monotone_path (lists_neighbor (adjacency ?w)) (elevations ?w) (c # p)))"
    using fillSinks_drainage[OF world_ex_ok(1-5)] unfolding fillSinks_world_ex by simp
  have "0 \<in> reachable (adjacency world_ex) ?e" by (rule reachable.seed) simp_all
  then have "1 \<in> reachable (adjacency world_ex) ?e"
    by (rule reachable.step) (simp_all add: world_ex_def)
  then have r: "2 \<in> reachable (adjacency world_ex) ?e"
    by (rule reachable.step) (simp_all add: world_ex_def)
  then have "\<exists>p. monotone_path (listed_by (adjacency world_ex)) ?e (2 # p) \<and>
        monotone_path (lists_neighbor (adjacency world_ex)) ?e (2 # p)"
    using all world_ex_ok(6) by simp
  then show ?thesis using world_ex_ok fillSinks_world_ex r by simp
qed

theorem fillSinks_frame_witness:
  "float_store (\<lambda>x. x) \<and> representable (\<lambda>x. x) (elevations world_ex) \<and>
   length (elevations world_ex) = cellCount world_ex \<and>
   length (adjacency world_ex) = cellCount world_ex \<and>
   neighbors_in_range (adjacency world_ex) \<and>
   (\<exists>elev'. fillSinks (\<lambda>x. x) world_ex = Inr (world_ex\<lparr>elevations := elev'\<rparr>) \<and>
           length elev' = cellCount world_ex \<and>
           (\<forall>i < cellCount world_ex. elevations world_ex ! i \<le> elev' ! i) \<and>
           (\<forall>i < cellCount world_ex. elev' ! i \<noteq> elevations world_ex ! i \<longrightarrow>
               0 < elevations world_ex ! i \<and>
               i \<in> reachable (adjacency world_ex) (elevations world_ex))) \<and>
   fillSinks (\<lambda>x. x) world_ex = Inr (world_ex\<lparr>elevations := [-1, 2, 200001 / 100000, 3]\<rparr>) \<and>
   [-1, 2, 200001 / 100000, 3] ! 2 \<noteq> elevations world_ex ! 2"
  using fillSinks_frame[OF world_ex_ok(1-5)] world_ex_ok fillSinks_world_ex
  by (simp add: world_ex_def)

section \<open>Smoothing (World.smoothMap)\<close>

text \<open>
  The two arrays of the double buffer are kept apart: the state holds the array \<open>data\<close>, the
  second array, and whether \<open>current\<close> is \<open>data\<close>; a pass reads \<open>current\<close> and writes the
  other array. The sum and the quotient are computed in the reals and the store rounds by
  \<open>fround\<close>. (On a constant field the double-precision sums \<open>c + c + ...\<close> of a Float32 value
  are exact for fewer than \<open>2^29\<close> neighbours, so the real arithmetic is the code's.)
  A neighbour index outside \<open>current\<close> reads \<open>undefined\<close> and makes the sum NaN:
  \<open>NotANumber\<close>. A cell index outside \<open>current\<close> computes NaN and stores it outside
  \<open>next\<close>, which a typed array ignores.
\<close>

text \<open>
  \<open>sum_neighbors\<close> is the loop over \<open>j\<close> with the state \<open>(sum, count)\<close>, \<open>smooth_pass\<close> the loop
  over \<open>i\<close>, \<open>smooth_iterations\<close> the loop over \<open>k\<close> with the swap of the two arrays, and
  \<open>smoothMap\<close> ends with \<open>data.set(current)\<close> when \<open>current\<close> is not \<open>data\<close>.
\<close>

fun sum_neighbors :: "real list \<Rightarrow> nat list \<Rightarrow> real \<times> nat \<Rightarrow> error + real \<times> nat" where
  "sum_neighbors current [] (the_sum, the_count) = Inr (the_sum, the_count)"
| "sum_neighbors current (n # ns) (the_sum, the_count) =
     (if n < length current
      then sum_neighbors current ns (the_sum + current ! n, the_count + 1)
      else Inl NotANumber)"

fun smooth_pass ::
  "(real \<Rightarrow> real) \<Rightarrow> nat list list \<Rightarrow> real list \<Rightarrow> nat list \<Rightarrow> real list \<Rightarrow> error + real list" where
  "smooth_pass fround adj current [] next = Inr next"
| "smooth_pass fround adj current (i # is) next =
     (if length adj \<le> i then Inl TypeError
      else if length current \<le> i then smooth_pass fround adj current is next
      else (case sum_neighbors current (adj ! i) (current ! i, 1) of
              Inl e \<Rightarrow> Inl e
            | Inr (the_sum, the_count) \<Rightarrow>
                smooth_pass fround adj current is (next[i := fround (the_sum / real the_count)])))"

type_synonym buffers = "real list \<times> real list \<times> bool"

fun smooth_iterations ::
  "(real \<Rightarrow> real) \<Rightarrow> nat list list \<Rightarrow> nat \<Rightarrow> nat \<Rightarrow> buffers \<Rightarrow> error + buffers" where
  "smooth_iterations fround adj n 0 b = Inr b"
| "smooth_iterations fround adj n (Suc k) (data, other, current_is_data) =
     (if current_is_data
      then (case smooth_pass fround adj data [0..<n] other of
              Inl e \<Rightarrow> Inl e
            | Inr other' \<Rightarrow> smooth_iterations fround adj n k (data, other', False))
      else (case smooth_pass fround adj other [0..<n] data of
              Inl e \<Rightarrow> Inl e
            | Inr data' \<Rightarrow> smooth_iterations fround adj n k (data', other, True)))"

definition smoothMap :: "(real \<Rightarrow> real) \<Rightarrow> world \<Rightarrow> real list \<Rightarrow> nat \<Rightarrow> error + real list" where
  "smoothMap fround w data iterations =
     (case smooth_iterations fround (adjacency w) (cellCount w) iterations
             (data, replicate (length data) 0, True) of
        Inl e \<Rightarrow> Inl e
      | Inr (data', other, current_is_data) \<Rightarrow>
          Inr (if current_is_data then data' else other))"

lemma sum_neighbors_const:
  "\<forall>n \<in> set ns. n < m \<Longrightarrow>
   sum_neighbors (replicate m c) ns (s, k) = Inr (s + c * real (length ns), k + length ns)"
proof (induction ns arbitrary: s k)
  case Nil
  then show ?case by simp
next
  case (Cons n ns)
  then show ?case by (simp add: algebra_simps)
qed

lemma smooth_pass_const:
  assumes fc: "fround c = c" and la: "length adj = m" and nb: "neighbors_in_range adj"
  shows "set is \<subseteq> {..<m} \<Longrightarrow> length next = m \<Longrightarrow>
         \<exists>next'. smooth_pass fround adj (replicate m c) is next = Inr next' \<and> length next' = m \<and>
            (\<forall>j < m. next' ! j = (if j \<in> set is then c else next ! j))"
proof (induction "is" arbitrary: "next")
  case Nil
  then show ?case by simp
next
  case (Cons i "is")
  have i: "i < m" using Cons.prems by simp
  have rng: "\<forall>n \<in> set (adj ! i). n < m"
    using nb la i unfolding neighbors_in_range_def by (metis nth_mem)
  have sn: "sum_neighbors (replicate m c) (adj ! i) (replicate m c ! i, 1) =
              Inr (c + c * real (length (adj ! i)), 1 + length (adj ! i))"
    using sum_neighbors_const[OF rng, of c "replicate m c ! i" 1] i by simp
  have mean: "(c + c * real (length (adj ! i))) / real (1 + length (adj ! i)) = c"
  proof -
    have "c + c * real (length (adj ! i)) = c * real (1 + length (adj ! i))"
      by (simp add: algebra_simps)
    then show ?thesis by simp
  qed
  have step: "smooth_pass fround adj (replicate m c) (i # is) next =
              smooth_pass fround adj (replicate m c) is (next[i := c])"
    using i la sn mean fc by simp
  have "set is \<subseteq> {..<m}" "length (next[i := c]) = m" using Cons.prems by simp_all
  from Cons.IH[OF this]
  obtain next' where r: "smooth_pass fround adj (replicate m c) is (next[i := c]) = Inr next'"
    "length next' = m" "\<forall>j < m. next' ! j = (if j \<in> set is then c else next[i := c] ! j)" by blast
  have "\<forall>j < m. next' ! j = (if j \<in> set (i # is) then c else next ! j)"
    using r(3) Cons.prems(2) by (auto simp: nth_list_update)
  then show ?case using step r(1,2) by simp
qed

lemma smooth_pass_const_all:
  assumes fc: "fround c = c" and la: "length adj = m" and nb: "neighbors_in_range adj"
    and ln: "length next = m"
  shows "smooth_pass fround adj (replicate m c) [0..<m] next = Inr (replicate m c)"
proof -
  have "set [0..<m] \<subseteq> {..<m}" by auto
  from smooth_pass_const[where fround = fround and c = c, OF fc la nb this ln]
  obtain next' where r: "smooth_pass fround adj (replicate m c) [0..<m] next = Inr next'"
    "length next' = m" "\<forall>j < m. next' ! j = (if j \<in> set [0..<m] then c else next ! j)" by blast
  have "next' = replicate m c"
    using r(2,3) by (intro nth_equalityI) simp_all
  then show ?thesis using r(1) by simp
qed

lemma smooth_iterations_const:
  assumes fc: "fround c = c" and la: "length adj = m" and nb: "neighbors_in_range adj"
  shows "length data = m \<Longrightarrow> length other = m \<Longrightarrow>
         (if cur then data else other) = replicate m c \<Longrightarrow>
         \<exists>data' other' cur'. smooth_iterations fround adj m k (data, other, cur) = Inr (data', other', cur') \<and>
            (if cur' then data' else other') = replicate m c"
proof (induction k arbitrary: data other cur)
  case 0
  then show ?case by simp
next
  case (Suc k)
  show ?case
  proof (cases cur)
    case True
    then have d: "data = replicate m c" using Suc.prems by simp
    have p: "smooth_pass fround adj data [0..<m] other = Inr (replicate m c)"
      unfolding d using smooth_pass_const_all[where fround = fround and c = c, OF fc la nb Suc.prems(2)] .
    have "\<exists>data' other' cur'. smooth_iterations fround adj m k (data, replicate m c, False) = Inr (data', other', cur') \<and>
            (if cur' then data' else other') = replicate m c"
      using Suc.prems by (intro Suc.IH) simp_all
    then show ?thesis using True p by simp
  next
    case False
    then have d: "other = replicate m c" using Suc.prems by simp
    have p: "smooth_pass fround adj other [0..<m] data = Inr (replicate m c)"
      unfolding d using smooth_pass_const_all[where fround = fround and c = c, OF fc la nb Suc.prems(1)] .
    have "\<exists>data' other' cur'. smooth_iterations fround adj m k (replicate m c, other, True) = Inr (data', other', cur') \<and>
            (if cur' then data' else other') = replicate m c"
      using Suc.prems by (intro Suc.IH) simp_all
    then show ?thesis using False p by simp
  qed
qed

text \<open>
  C7. A field that holds the same value \<open>c\<close> at every cell is left unchanged by smoothMap,
  for every number of iterations: every cell again holds \<open>c\<close>. The value \<open>c\<close> is a value of the
  array (\<open>fround c = c\<close>) and the cached neighbour indices are in range.
\<close>

theorem smoothMap_constant:
  assumes "fround c = c"
    and "length (adjacency w) = cellCount w"
    and "neighbors_in_range (adjacency w)"
  shows "smoothMap fround w (replicate (cellCount w) c) iterations = Inr (replicate (cellCount w) c)"
proof -
  let ?m = "cellCount w"
  have "\<exists>data' other' cur'. smooth_iterations fround (adjacency w) ?m iterations
            (replicate ?m c, replicate ?m 0, True) = Inr (data', other', cur') \<and>
            (if cur' then data' else other') = replicate ?m c"
    by (intro smooth_iterations_const[where fround = fround and c = c, OF assms]) simp_all
  then show ?thesis unfolding smoothMap_def by auto
qed

theorem smoothMap_constant_witness:
  "(\<lambda>x. x) (7 / 2 :: real) = 7 / 2 \<and>
   length (adjacency world_ex) = cellCount world_ex \<and>
   neighbors_in_range (adjacency world_ex) \<and>
   smoothMap (\<lambda>x. x) world_ex [7 / 2, 7 / 2, 7 / 2, 7 / 2] 2 = Inr [7 / 2, 7 / 2, 7 / 2, 7 / 2]"
proof -
  have n: "cellCount world_ex = 4" by (simp add: cellCount_def world_ex_def)
  have r: "replicate (cellCount world_ex) (7 / 2 :: real) = [7 / 2, 7 / 2, 7 / 2, 7 / 2]"
    unfolding n by (simp add: numeral_eq_Suc)
  show ?thesis
    using smoothMap_constant[of "\<lambda>x. x" "7 / 2" world_ex 2] world_ex_ok(4,5) unfolding r by simp
qed

section \<open>Coast distance (World.calculateDistanceToCoast)\<close>

text \<open>
  The array \<open>distance\<close> is an \<open>Int32Array\<close> with the sentinel -1, modelled as a list of
  integers (a distance is below the cell count, so it does not wrap). The queue is the array
  \<open>queue\<close> with the read position \<open>queueStart\<close>. A neighbour index outside \<open>distance\<close>
  reads \<open>undefined\<close>, which is not \<open>-1\<close>, and is skipped. The outer loop is a partial
  function, whose value \<open>None\<close> is a run that does not return: that it returns is part of
  what is proved.
\<close>

text \<open>
  \<open>init_distance\<close> is the first loop (distance 0 and a queue entry for every cell with
  elevation at most 0), \<open>scan_neighbors\<close> is the loop over the neighbours of the current cell,
  and \<open>bfs_loop\<close> is the loop \<open>while (queueStart < queue.length)\<close>.
\<close>

type_synonym bfs_state = "int list \<times> nat list"

fun init_distance :: "real list \<Rightarrow> nat list \<Rightarrow> bfs_state \<Rightarrow> bfs_state" where
  "init_distance elev [] s = s"
| "init_distance elev (i # is) (distance, queue) =
     (if i < length elev \<and> elev ! i \<le> 0
      then init_distance elev is (distance[i := 0], queue @ [i])
      else init_distance elev is (distance, queue))"

fun scan_neighbors :: "int \<Rightarrow> nat list \<Rightarrow> bfs_state \<Rightarrow> bfs_state" where
  "scan_neighbors currentDist [] s = s"
| "scan_neighbors currentDist (nId # ns) (distance, queue) =
     (if nId < length distance \<and> distance ! nId = - 1
      then scan_neighbors currentDist ns (distance[nId := currentDist + 1], queue @ [nId])
      else scan_neighbors currentDist ns (distance, queue))"

definition bfs_measure :: "bfs_state \<Rightarrow> nat" where
  "bfs_measure s = (case s of (distance, queue) \<Rightarrow>
     2 * length (filter (\<lambda>d. d = - 1) distance) + length queue)"

lemma unknown_update:
  "n < length distance \<Longrightarrow> distance ! n = - 1 \<Longrightarrow> d \<noteq> - 1 \<Longrightarrow>
   Suc (length (filter (\<lambda>d. d = - 1) (distance[n := d]))) = length (filter (\<lambda>d. d = - 1) distance)"
proof (induction distance arbitrary: n)
  case Nil
  then show ?case by simp
next
  case (Cons a distance)
  then show ?case by (cases n) auto
qed

lemma scan_neighbors_measure:
  "0 \<le> currentDist \<Longrightarrow> scan_neighbors currentDist ns s = s' \<Longrightarrow>
   bfs_measure s' \<le> bfs_measure s \<and> length (snd s) \<le> length (snd s')"
proof (induction currentDist ns s arbitrary: s' rule: scan_neighbors.induct)
  case (1 currentDist s)
  then show ?case by simp
next
  case (2 currentDist nId ns distance queue)
  show ?case
  proof (cases "nId < length distance \<and> distance ! nId = - 1")
    case True
    let ?t = "(distance[nId := currentDist + 1], queue @ [nId])"
    have "scan_neighbors currentDist ns ?t = s'" using "2.prems" True by simp
    then have "bfs_measure s' \<le> bfs_measure ?t \<and> length (snd ?t) \<le> length (snd s')"
      using "2.IH"(1)[OF True "2.prems"(1)] by simp
    moreover have "bfs_measure ?t \<le> bfs_measure (distance, queue)"
      using unknown_update[of nId distance "currentDist + 1"] True "2.prems"(1)
      by (simp add: bfs_measure_def)
    ultimately show ?thesis by simp
  next
    case False
    then have "scan_neighbors currentDist ns (distance, queue) = s'" using "2.prems" by auto
    then show ?thesis using "2.IH"(2)[OF False "2.prems"(1)] by simp
  qed
qed

partial_function (option) bfs_loop ::
  "nat list list \<Rightarrow> int list \<times> nat list \<times> nat \<Rightarrow> (error + int list) option" where
  "bfs_loop adj s =
     (case s of (distance, queue, queueStart) \<Rightarrow>
        if queueStart < length queue then
          (let current = queue ! queueStart;
               currentDist = distance ! current
           in if length adj \<le> current then Some (Inl TypeError)
              else (case scan_neighbors currentDist (adj ! current) (distance, queue) of
                      (distance', queue') \<Rightarrow> bfs_loop adj (distance', queue', queueStart + 1)))
        else Some (Inr distance))"

declare bfs_loop.simps [code]

definition calculateDistanceToCoast :: "world \<Rightarrow> (error + int list) option" where
  "calculateDistanceToCoast w =
     (case init_distance (elevations w) [0..<cellCount w] (replicate (cellCount w) (- 1), []) of
        (distance, queue) \<Rightarrow> bfs_loop (adjacency w) (distance, queue, 0))"

subsection \<open>Correctness of the breadth-first traversal\<close>

text \<open>
  \<open>hops nb elev k i\<close>: cell \<open>i\<close> is reached from a cell with elevation at most 0 by \<open>k\<close> steps of
  the neighbour relation \<open>nb\<close> through cells of the array.
\<close>

inductive hops :: "(nat \<Rightarrow> nat \<Rightarrow> bool) \<Rightarrow> real list \<Rightarrow> nat \<Rightarrow> nat \<Rightarrow> bool"
  for nb :: "nat \<Rightarrow> nat \<Rightarrow> bool" and elev :: "real list" where
  zero: "i < length elev \<Longrightarrow> elev ! i \<le> 0 \<Longrightarrow> hops nb elev 0 i"
| hop: "hops nb elev k u \<Longrightarrow> nb u v \<Longrightarrow> v < length elev \<Longrightarrow> hops nb elev (Suc k) v"

lemma scan_neighbors_result:
  "currentDist + 1 \<noteq> - 1 \<Longrightarrow> scan_neighbors currentDist ns (d, q) = (d', q') \<Longrightarrow>
   length d' = length d \<and>
   (\<forall>v < length d. d' ! v = (if v \<in> set ns \<and> d ! v = - 1 then currentDist + 1 else d ! v)) \<and>
   (\<exists>new. q' = q @ new \<and> set new = {v \<in> set ns. v < length d \<and> d ! v = - 1})"
proof (induction ns arbitrary: d q)
  case Nil
  then show ?case by simp
next
  case (Cons n ns)
  show ?case
  proof (cases "n < length d \<and> d ! n = - 1")
    case True
    let ?d1 = "d[n := currentDist + 1]"
    have "scan_neighbors currentDist ns (?d1, q @ [n]) = (d', q')"
      using Cons.prems True by simp
    from Cons.IH[OF Cons.prems(1) this]
    obtain new where r: "length d' = length ?d1"
      "\<forall>v < length ?d1. d' ! v = (if v \<in> set ns \<and> ?d1 ! v = - 1 then currentDist + 1 else ?d1 ! v)"
      "q' = (q @ [n]) @ new" "set new = {v \<in> set ns. v < length ?d1 \<and> ?d1 ! v = - 1}"
      by blast
    have a: "\<forall>v < length d. d' ! v = (if v \<in> set (n # ns) \<and> d ! v = - 1 then currentDist + 1 else d ! v)"
    proof (intro allI impI)
      fix v assume v: "v < length d"
      show "d' ! v = (if v \<in> set (n # ns) \<and> d ! v = - 1 then currentDist + 1 else d ! v)"
      proof (cases "v = n")
        case True
        then show ?thesis using r(2) v Cons.prems(1) \<open>n < length d \<and> d ! n = - 1\<close> by simp
      next
        case False
        then show ?thesis using r(2) v by simp
      qed
    qed
    have "set (n # new) = {v \<in> set (n # ns). v < length d \<and> d ! v = - 1}"
    proof (intro set_eqI iffI)
      fix v assume "v \<in> set (n # new)"
      then consider "v = n" | "v \<in> set new" by auto
      then show "v \<in> {v \<in> set (n # ns). v < length d \<and> d ! v = - 1}"
      proof cases
        case 1
        then show ?thesis using True by simp
      next
        case 2
        then have "v \<in> set ns" "v < length d" "?d1 ! v = - 1" using r(4) by simp_all
        moreover have "v \<noteq> n" using \<open>?d1 ! v = - 1\<close> True Cons.prems(1) by auto
        ultimately show ?thesis by simp
      qed
    next
      fix v assume "v \<in> {v \<in> set (n # ns). v < length d \<and> d ! v = - 1}"
      then have v: "v = n \<or> v \<in> set ns" "v < length d" "d ! v = - 1" by simp_all
      show "v \<in> set (n # new)"
      proof (cases "v = n")
        case True
        then show ?thesis by simp
      next
        case False
        then have "v \<in> set new" using v r(4) by simp
        then show ?thesis by simp
      qed
    qed
    moreover have "q' = q @ (n # new)" using r(3) by simp
    ultimately show ?thesis using r(1) a by auto
  next
    case False
    have "scan_neighbors currentDist ns (d, q) = (d', q')"
      using Cons.prems False by auto
    from Cons.IH[OF Cons.prems(1) this]
    obtain new where r: "length d' = length d"
      "\<forall>v < length d. d' ! v = (if v \<in> set ns \<and> d ! v = - 1 then currentDist + 1 else d ! v)"
      "q' = q @ new" "set new = {v \<in> set ns. v < length d \<and> d ! v = - 1}"
      by blast
    have "\<forall>v < length d. d' ! v = (if v \<in> set (n # ns) \<and> d ! v = - 1 then currentDist + 1 else d ! v)"
      using r(2) False by auto
    moreover have "set new = {v \<in> set (n # ns). v < length d \<and> d ! v = - 1}"
      using r(4) False by auto
    ultimately show ?thesis using r(1,3) by blast
  qed
qed

lemma init_distance_result:
  "length d = length elev \<Longrightarrow> init_distance elev is (d, q) = (d', q') \<Longrightarrow>
   length d' = length d \<and>
   (\<forall>v < length d. d' ! v = (if v \<in> set is \<and> elev ! v \<le> 0 then 0 else d ! v)) \<and>
   (\<exists>new. q' = q @ new \<and> set new = {v \<in> set is. v < length elev \<and> elev ! v \<le> 0})"
proof (induction "is" arbitrary: d q)
  case Nil
  then show ?case by simp
next
  case (Cons i "is")
  show ?case
  proof (cases "i < length elev \<and> elev ! i \<le> 0")
    case True
    let ?d1 = "d[i := 0]"
    have "init_distance elev is (?d1, q @ [i]) = (d', q')" "length ?d1 = length elev"
      using Cons.prems True by simp_all
    from Cons.IH[OF this(2,1)]
    obtain new where r: "length d' = length ?d1"
      "\<forall>v < length ?d1. d' ! v = (if v \<in> set is \<and> elev ! v \<le> 0 then 0 else ?d1 ! v)"
      "q' = (q @ [i]) @ new" "set new = {v \<in> set is. v < length elev \<and> elev ! v \<le> 0}"
      by blast
    have "\<forall>v < length d. d' ! v = (if v \<in> set (i # is) \<and> elev ! v \<le> 0 then 0 else d ! v)"
      using r(2) True Cons.prems(1) by (auto simp: nth_list_update)
    moreover have "set (i # new) = {v \<in> set (i # is). v < length elev \<and> elev ! v \<le> 0}"
      using r(4) True by auto
    moreover have "q' = q @ (i # new)" using r(3) by simp
    ultimately show ?thesis using r(1) by auto
  next
    case False
    have "init_distance elev is (d, q) = (d', q')"
      using Cons.prems False by auto
    from Cons.IH[OF Cons.prems(1) this]
    obtain new where r: "length d' = length d"
      "\<forall>v < length d. d' ! v = (if v \<in> set is \<and> elev ! v \<le> 0 then 0 else d ! v)"
      "q' = q @ new" "set new = {v \<in> set is. v < length elev \<and> elev ! v \<le> 0}"
      by blast
    have "\<forall>v < length d. d' ! v = (if v \<in> set (i # is) \<and> elev ! v \<le> 0 then 0 else d ! v)"
      using r(2) False Cons.prems(1) by auto
    moreover have "set new = {v \<in> set (i # is). v < length elev \<and> elev ! v \<le> 0}"
      using r(4) False by auto
    ultimately show ?thesis using r(1,3) by blast
  qed
qed

text \<open>The invariant of the loop of the traversal, on the state \<open>(distance, queue, queueStart)\<close>.\<close>

definition bfs_inv :: "nat list list \<Rightarrow> real list \<Rightarrow> int list \<times> nat list \<times> nat \<Rightarrow> bool" where
  "bfs_inv adj elev s = (case s of (d, q, qs) \<Rightarrow>
     length d = length elev \<and> qs \<le> length q \<and>
     set q = {v. v < length elev \<and> d ! v \<noteq> - 1} \<and>
     (\<forall>v \<in> set q. 0 \<le> d ! v \<and> hops (lists_neighbor adj) elev (nat (d ! v)) v) \<and>
     sorted (map (\<lambda>v. d ! v) q) \<and>
     (qs < length q \<longrightarrow> (\<forall>v \<in> set q. d ! v \<le> d ! (q ! qs) + 1)) \<and>
     (\<forall>u \<in> set (take qs q). \<forall>w \<in> set (adj ! u). w < length elev \<longrightarrow>
          d ! w \<noteq> - 1 \<and> d ! w \<le> d ! u + 1) \<and>
     (\<forall>v < length elev. elev ! v \<le> 0 \<longrightarrow> d ! v = 0))"

lemma sorted_map_const: "\<forall>x \<in> set xs. f x = (c :: int) \<Longrightarrow> sorted (map f xs)"
  by (induction xs) auto

lemma bfs_step:
  assumes inv: "bfs_inv adj elev (d, q, qs)"
    and la: "length adj = length elev"
    and qs: "qs < length q"
    and sc: "scan_neighbors (d ! (q ! qs)) (adj ! (q ! qs)) (d, q) = (d', q')"
  shows "bfs_inv adj elev (d', q', qs + 1)"
proof -
  define cur where "cur = q ! qs"
  define cd where "cd = d ! cur"
  define ns where "ns = adj ! cur"
  let ?N = "length elev"
  have len: "length d = ?N"
    and setq: "set q = {v. v < ?N \<and> d ! v \<noteq> - 1}"
    and hp: "\<forall>v \<in> set q. 0 \<le> d ! v \<and> hops (lists_neighbor adj) elev (nat (d ! v)) v"
    and so: "sorted (map (\<lambda>v. d ! v) q)"
    and bd: "\<forall>v \<in> set q. d ! v \<le> cd + 1"
    and cl: "\<forall>u \<in> set (take qs q). \<forall>w \<in> set (adj ! u). w < ?N \<longrightarrow> d ! w \<noteq> - 1 \<and> d ! w \<le> d ! u + 1"
    and sd: "\<forall>v < ?N. elev ! v \<le> 0 \<longrightarrow> d ! v = 0"
    using inv qs unfolding bfs_inv_def cd_def cur_def by simp_all
  have curq: "cur \<in> set q" using qs by (simp add: cur_def)
  then have cur: "cur < ?N" "0 \<le> cd" "hops (lists_neighbor adj) elev (nat cd) cur"
    using setq hp by (simp_all add: cd_def)
  have ne: "cd + 1 \<noteq> - 1" using cur by simp
  have sc': "scan_neighbors cd ns (d, q) = (d', q')" using sc by (simp add: cd_def ns_def cur_def)
  from scan_neighbors_result[OF ne sc']
  obtain new where r: "length d' = length d"
    "\<forall>v < length d. d' ! v = (if v \<in> set ns \<and> d ! v = - 1 then cd + 1 else d ! v)"
    "q' = q @ new" "set new = {v \<in> set ns. v < length d \<and> d ! v = - 1}" by blast
  have keep: "d' ! v = d ! v" if "v \<in> set q" for v
    using that setq r(2) len by simp
  have newd: "d' ! v = cd + 1 \<and> v < ?N \<and> v \<in> set ns" if "v \<in> set new" for v
    using that r(4) r(2) len by simp
  have c1: "length d' = ?N" using r(1) len by simp
  have c2: "qs + 1 \<le> length q'" using qs r(3) by simp
  have c3: "set q' = {v. v < ?N \<and> d' ! v \<noteq> - 1}"
  proof (intro set_eqI iffI)
    fix v assume "v \<in> set q'"
    then consider "v \<in> set q" | "v \<in> set new" using r(3) by auto
    then show "v \<in> {v. v < ?N \<and> d' ! v \<noteq> - 1}"
    proof cases
      case 1
      then show ?thesis using keep[OF 1] setq by simp
    next
      case 2
      then show ?thesis using newd[OF 2] ne by simp
    qed
  next
    fix v assume "v \<in> {v. v < ?N \<and> d' ! v \<noteq> - 1}"
    then have v: "v < ?N" "d' ! v \<noteq> - 1" by simp_all
    show "v \<in> set q'"
    proof (cases "d ! v = - 1")
      case True
      then have "v \<in> set ns" using v r(2) len by (auto split: if_splits)
      then have "v \<in> set new" using r(4) True v len by simp
      then show ?thesis using r(3) by simp
    next
      case False
      then have "v \<in> set q" using setq v by simp
      then show ?thesis using r(3) by simp
    qed
  qed
  have c4: "\<forall>v \<in> set q'. 0 \<le> d' ! v \<and> hops (lists_neighbor adj) elev (nat (d' ! v)) v"
  proof
    fix v assume "v \<in> set q'"
    then consider "v \<in> set q" | "v \<in> set new" using r(3) by auto
    then show "0 \<le> d' ! v \<and> hops (lists_neighbor adj) elev (nat (d' ! v)) v"
    proof cases
      case 1
      then show ?thesis using keep[OF 1] hp by simp
    next
      case 2
      have v: "d' ! v = cd + 1" "v < ?N" "v \<in> set ns" using newd[OF 2] by simp_all
      have "lists_neighbor adj cur v"
        using v cur la by (simp add: lists_neighbor_def ns_def)
      then have "hops (lists_neighbor adj) elev (Suc (nat cd)) v"
        using cur(3) v(2) by (intro hops.hop[of _ _ _ cur])
      moreover have "nat (cd + 1) = Suc (nat cd)" using cur(2) by simp
      ultimately show ?thesis using v(1) cur(2) by simp
    qed
  qed
  have mq: "map (\<lambda>v. d' ! v) q = map (\<lambda>v. d ! v) q" using keep by simp
  have c5: "sorted (map (\<lambda>v. d' ! v) q')"
  proof -
    have "sorted (map (\<lambda>v. d' ! v) new)" using newd by (intro sorted_map_const[of _ _ "cd + 1"]) simp
    moreover have "\<forall>x \<in> set q. \<forall>y \<in> set new. d' ! x \<le> d' ! y"
      using keep newd bd by simp
    moreover have "sorted (map (\<lambda>v. d' ! v) q)" unfolding mq using so .
    ultimately show ?thesis unfolding r(3) by (simp add: sorted_append)
  qed
  have all_le: "\<forall>v \<in> set q'. d' ! v \<le> cd + 1"
    using keep newd bd r(3) by auto
  have dcur: "d' ! cur = cd" using keep[OF curq] by (simp add: cd_def)
  have c6: "qs + 1 < length q' \<longrightarrow> (\<forall>v \<in> set q'. d' ! v \<le> d' ! (q' ! (qs + 1)) + 1)"
  proof
    assume a: "qs + 1 < length q'"
    have "map (\<lambda>v. d' ! v) q' ! qs \<le> map (\<lambda>v. d' ! v) q' ! (qs + 1)"
      using c5 a by (intro sorted_nth_mono) simp_all
    moreover have "q' ! qs = cur" using qs r(3) by (simp add: nth_append cur_def)
    ultimately have "cd \<le> d' ! (q' ! (qs + 1))" using a dcur by simp
    then show "\<forall>v \<in> set q'. d' ! v \<le> d' ! (q' ! (qs + 1)) + 1"
      using all_le by auto
  qed
  have tk: "take (qs + 1) q' = take qs q @ [cur]"
    using qs r(3) by (simp add: take_Suc_conv_app_nth cur_def)
  have c7: "\<forall>u \<in> set (take (qs + 1) q'). \<forall>w \<in> set (adj ! u). w < ?N \<longrightarrow>
              d' ! w \<noteq> - 1 \<and> d' ! w \<le> d' ! u + 1"
  proof (intro ballI impI)
    fix u w assume u: "u \<in> set (take (qs + 1) q')" and w: "w \<in> set (adj ! u)" "w < ?N"
    consider "u \<in> set (take qs q)" | "u = cur" using u tk by auto
    then show "d' ! w \<noteq> - 1 \<and> d' ! w \<le> d' ! u + 1"
    proof cases
      case 1
      then have uq: "u \<in> set q" by (meson in_set_takeD)
      have "d ! w \<noteq> - 1 \<and> d ! w \<le> d ! u + 1" using cl 1 w by blast
      moreover from this have "w \<in> set q" using setq w by simp
      ultimately show ?thesis using keep uq by simp
    next
      case 2
      show ?thesis
      proof (cases "d ! w = - 1")
        case True
        then have "d' ! w = cd + 1" using r(2) w len 2 by (simp add: ns_def)
        then show ?thesis using ne dcur 2 by simp
      next
        case False
        then have "w \<in> set q" using setq w by simp
        then show ?thesis using keep[of w] bd False dcur 2 by simp
      qed
    qed
  qed
  have c8: "\<forall>v < ?N. elev ! v \<le> 0 \<longrightarrow> d' ! v = 0"
    using sd r(2) len by simp
  show ?thesis
    unfolding bfs_inv_def prod.case
    by (intro conjI) (fact c1 c2 c3 c4 c5 c6 c7 c8)+
qed

lemma bfs_loop_inv:
  assumes la: "length adj = length elev"
  shows "bfs_inv adj elev s \<Longrightarrow>
         \<exists>d' q'. bfs_loop adj s = Some (Inr d') \<and> bfs_inv adj elev (d', q', length q')"
proof (induction "bfs_measure (fst s, fst (snd s)) - snd (snd s)" arbitrary: s rule: less_induct)
  case less
  obtain d q qs where s: "s = (d, q, qs)" by (cases s) auto
  have inv: "bfs_inv adj elev (d, q, qs)" using less.prems unfolding s .
  show ?case
  proof (cases "qs < length q")
    case False
    then have "qs = length q" using inv unfolding bfs_inv_def by simp
    moreover have "bfs_loop adj s = Some (Inr d)"
      using False unfolding s by (subst bfs_loop.simps) simp
    ultimately show ?thesis using inv by blast
  next
    case True
    define cur where "cur = q ! qs"
    have "cur \<in> set q" using True by (simp add: cur_def)
    then have cur: "cur < length adj" "0 \<le> d ! cur"
      using inv la unfolding bfs_inv_def by simp_all
    obtain d1 q1 where sc: "scan_neighbors (d ! cur) (adj ! cur) (d, q) = (d1, q1)"
      by (cases "scan_neighbors (d ! cur) (adj ! cur) (d, q)") auto
    have inv1: "bfs_inv adj elev (d1, q1, qs + 1)"
      using bfs_step[OF inv la True] sc unfolding cur_def by simp
    have m: "bfs_measure (d1, q1) \<le> bfs_measure (d, q)" "length q \<le> length q1"
      using scan_neighbors_measure[OF cur(2) sc] by simp_all
    have "qs < bfs_measure (d, q)" using True by (simp add: bfs_measure_def)
    then have "bfs_measure (d1, q1) - (qs + 1) < bfs_measure (d, q) - qs" using m by simp
    then have "\<exists>d' q'. bfs_loop adj (d1, q1, qs + 1) = Some (Inr d') \<and>
                 bfs_inv adj elev (d', q', length q')"
      using less.hyps[of "(d1, q1, qs + 1)"] inv1 unfolding s by simp
    moreover have "bfs_loop adj s = bfs_loop adj (d1, q1, qs + 1)"
      unfolding s using True cur(1) sc by (subst bfs_loop.simps) (simp add: cur_def Let_def)
    ultimately show ?thesis by simp
  qed
qed

lemma init_distance_inv:
  assumes "init_distance elev [0..<length elev] (replicate (length elev) (- 1), []) = (d, q)"
  shows "bfs_inv adj elev (d, q, 0)"
proof -
  let ?N = "length elev"
  have "length (replicate ?N (- 1 :: int)) = ?N" by simp
  from init_distance_result[OF this assms]
  obtain new where r: "length d = length (replicate ?N (- 1 :: int))"
    "\<forall>v < length (replicate ?N (- 1 :: int)).
        d ! v = (if v \<in> set [0..<?N] \<and> elev ! v \<le> 0 then 0 else replicate ?N (- 1) ! v)"
    "q = [] @ new" "set new = {v \<in> set [0..<?N]. v < ?N \<and> elev ! v \<le> 0}" by blast
  have len: "length d = ?N" using r(1) by simp
  have dv: "\<And>v. v < ?N \<Longrightarrow> d ! v = (if elev ! v \<le> 0 then 0 else - 1)"
    using r(2) by simp
  have sq: "set q = {v. v < ?N \<and> elev ! v \<le> 0}" using r(3,4) by auto
  have c3: "set q = {v. v < ?N \<and> d ! v \<noteq> - 1}"
    unfolding sq using dv by (auto split: if_splits)
  have q0: "\<And>v. v \<in> set q \<Longrightarrow> d ! v = 0 \<and> v < ?N \<and> elev ! v \<le> 0"
    using sq dv by simp
  have c4: "\<forall>v \<in> set q. 0 \<le> d ! v \<and> hops (lists_neighbor adj) elev (nat (d ! v)) v"
  proof
    fix v assume "v \<in> set q"
    then have "d ! v = 0" "v < ?N" "elev ! v \<le> 0" using q0 by simp_all
    then show "0 \<le> d ! v \<and> hops (lists_neighbor adj) elev (nat (d ! v)) v"
      using hops.zero[of v elev "lists_neighbor adj"] by simp
  qed
  have c5: "sorted (map (\<lambda>v. d ! v) q)"
    using q0 by (intro sorted_map_const[of _ _ 0]) simp
  have c6: "0 < length q \<longrightarrow> (\<forall>v \<in> set q. d ! v \<le> d ! (q ! 0) + 1)"
  proof
    assume "0 < length q"
    then have "q ! 0 \<in> set q" by simp
    then have "d ! (q ! 0) = 0" using q0 by simp
    then show "\<forall>v \<in> set q. d ! v \<le> d ! (q ! 0) + 1" using q0 by simp
  qed
  have c7: "\<forall>u \<in> set (take 0 q). \<forall>w \<in> set (adj ! u). w < ?N \<longrightarrow> d ! w \<noteq> - 1 \<and> d ! w \<le> d ! u + 1"
    by simp
  have c8: "\<forall>v < ?N. elev ! v \<le> 0 \<longrightarrow> d ! v = 0" using dv by simp
  have c2: "0 \<le> length q" by simp
  show ?thesis
    unfolding bfs_inv_def prod.case
    by (intro conjI) (fact len c2 c3 c4 c5 c6 c7 c8)+
qed

lemma bfs_final_upper:
  assumes inv: "bfs_inv adj elev (d, q, length q)"
  shows "hops (lists_neighbor adj) elev k v \<Longrightarrow> v \<in> set q \<and> d ! v \<le> int k"
proof -
  have sd: "\<forall>v < length elev. elev ! v \<le> 0 \<longrightarrow> d ! v = 0"
    and sq: "set q = {v. v < length elev \<and> d ! v \<noteq> - 1}"
    and cl: "\<forall>u \<in> set (take (length q) q). \<forall>w \<in> set (adj ! u). w < length elev \<longrightarrow>
               d ! w \<noteq> - 1 \<and> d ! w \<le> d ! u + 1"
    using inv unfolding bfs_inv_def prod.case by blast+
  have mem: "\<And>x. x \<in> set q \<longleftrightarrow> x < length elev \<and> d ! x \<noteq> - 1"
    unfolding sq by simp
  show "hops (lists_neighbor adj) elev k v \<Longrightarrow> v \<in> set q \<and> d ! v \<le> int k"
  proof (induction rule: hops.induct)
    case (zero i)
    then have "d ! i = 0" using sd by simp
    then show ?case using zero mem by simp
  next
    case (hop k u v)
    have "v \<in> set (adj ! u)" using hop.hyps(2) by (simp add: lists_neighbor_def)
    moreover have "u \<in> set (take (length q) q)" using hop.IH by simp
    ultimately have "d ! v \<noteq> - 1 \<and> d ! v \<le> d ! u + 1" using cl hop.hyps(3) by blast
    then show ?case using hop.IH hop.hyps(3) mem by simp
  qed
qed

text \<open>
  \<open>coast_distance_ok nb elev distance i\<close>: if cell \<open>i\<close> is reached by some number of hops,
  \<open>distance ! i\<close> is the least such number; otherwise it is -1.
\<close>

definition coast_distance_ok :: "(nat \<Rightarrow> nat \<Rightarrow> bool) \<Rightarrow> real list \<Rightarrow> int list \<Rightarrow> nat \<Rightarrow> bool" where
  "coast_distance_ok nb elev distance i \<longleftrightarrow>
     (if \<exists>k. hops nb elev k i
      then 0 \<le> distance ! i \<and> hops nb elev (nat (distance ! i)) i \<and>
           (\<forall>k. hops nb elev k i \<longrightarrow> nat (distance ! i) \<le> k)
      else distance ! i = - 1)"

lemma symmetric_neighbors:
  assumes "symmetric_adjacency adj"
  shows "listed_by adj = lists_neighbor adj"
proof (intro ext iffI)
  fix a b assume "listed_by adj a b"
  then show "lists_neighbor adj a b"
    using assms unfolding listed_by_def lists_neighbor_def symmetric_adjacency_def by blast
next
  fix a b assume "lists_neighbor adj a b"
  then show "listed_by adj a b"
    using assms unfolding listed_by_def lists_neighbor_def symmetric_adjacency_def by blast
qed

lemma calculateDistanceToCoast_inv:
  assumes le: "length (elevations w) = cellCount w"
    and la: "length (adjacency w) = cellCount w"
  shows "\<exists>d q. calculateDistanceToCoast w = Some (Inr d) \<and>
           bfs_inv (adjacency w) (elevations w) (d, q, length q)"
proof -
  obtain d0 q0 where i:
    "init_distance (elevations w) [0..<length (elevations w)]
       (replicate (length (elevations w)) (- 1), []) = (d0, q0)"
    by (cases "init_distance (elevations w) [0..<length (elevations w)]
       (replicate (length (elevations w)) (- 1), [])") auto
  have "bfs_inv (adjacency w) (elevations w) (d0, q0, 0)"
    using init_distance_inv[OF i] .
  moreover have "length (adjacency w) = length (elevations w)" using le la by simp
  ultimately obtain d q where r: "bfs_loop (adjacency w) (d0, q0, 0) = Some (Inr d)"
    "bfs_inv (adjacency w) (elevations w) (d, q, length q)"
    using bfs_loop_inv by blast
  have "calculateDistanceToCoast w = Some (Inr d)"
    unfolding calculateDistanceToCoast_def using i r(1) le by simp
  then show ?thesis using r(2) by blast
qed

lemma bfs_final_ok:
  assumes inv: "bfs_inv adj elev (d, q, length q)" and i: "i < length elev"
  shows "coast_distance_ok (lists_neighbor adj) elev d i"
proof -
  have sq: "set q = {v. v < length elev \<and> d ! v \<noteq> - 1}"
    and hp: "\<forall>v \<in> set q. 0 \<le> d ! v \<and> hops (lists_neighbor adj) elev (nat (d ! v)) v"
    using inv unfolding bfs_inv_def prod.case by blast+
  show ?thesis
  proof (cases "\<exists>k. hops (lists_neighbor adj) elev k i")
    case True
    then obtain k0 where "hops (lists_neighbor adj) elev k0 i" by blast
    then have iq: "i \<in> set q" using bfs_final_upper[OF inv] by blast
    then have a: "0 \<le> d ! i" "hops (lists_neighbor adj) elev (nat (d ! i)) i" using hp by simp_all
    have "\<forall>k. hops (lists_neighbor adj) elev k i \<longrightarrow> nat (d ! i) \<le> k"
    proof (intro allI impI)
      fix k assume "hops (lists_neighbor adj) elev k i"
      then have "d ! i \<le> int k" using bfs_final_upper[OF inv] by blast
      then show "nat (d ! i) \<le> k" by simp
    qed
    then show ?thesis unfolding coast_distance_ok_def using True a by simp
  next
    case False
    have "d ! i = - 1"
    proof (rule ccontr)
      assume "d ! i \<noteq> - 1"
      then have "i \<in> set q" using sq i by simp
      then have "hops (lists_neighbor adj) elev (nat (d ! i)) i" using hp by simp
      then show False using False by blast
    qed
    then show ?thesis unfolding coast_distance_ok_def using False by simp
  qed
qed

text \<open>
  C5. calculateDistanceToCoast returns an array that holds 0 at every cell with elevation at
  most 0; at every cell that some chain of cached-adjacency hops reaches from such a cell it
  holds the least number of hops of such a chain; at every other cell it holds -1. A hop goes
  from a cell to a cell of its cached neighbour list; for a symmetric adjacency the same
  holds with the hops reversed (from the cell to the cell with elevation at most 0).
\<close>

theorem calculateDistanceToCoast_correct:
  assumes "length (elevations w) = cellCount w"
    and "length (adjacency w) = cellCount w"
  shows "\<exists>distance. calculateDistanceToCoast w = Some (Inr distance) \<and> length distance = cellCount w \<and>
           (\<forall>i < cellCount w.
              (elevations w ! i \<le> 0 \<longrightarrow> distance ! i = 0) \<and>
              coast_distance_ok (lists_neighbor (adjacency w)) (elevations w) distance i \<and>
              (symmetric_adjacency (adjacency w) \<longrightarrow>
                 coast_distance_ok (listed_by (adjacency w)) (elevations w) distance i))"
proof -
  obtain d q where r: "calculateDistanceToCoast w = Some (Inr d)"
    and inv: "bfs_inv (adjacency w) (elevations w) (d, q, length q)"
    using calculateDistanceToCoast_inv[OF assms] by blast
  have len: "length d = cellCount w"
    and sd: "\<forall>v < length (elevations w). elevations w ! v \<le> 0 \<longrightarrow> d ! v = 0"
    using inv assms(1) unfolding bfs_inv_def prod.case by simp_all
  have ok: "coast_distance_ok (lists_neighbor (adjacency w)) (elevations w) d i"
    if "i < cellCount w" for i
    using bfs_final_ok[OF inv] that assms(1) by simp
  have "coast_distance_ok (listed_by (adjacency w)) (elevations w) d i"
    if "i < cellCount w" "symmetric_adjacency (adjacency w)" for i
    using ok[OF that(1)] symmetric_neighbors[OF that(2)] by simp
  then show ?thesis using r len sd ok assms(1) by auto
qed

lemma calculateDistanceToCoast_world_ex:
  "calculateDistanceToCoast world_ex = Some (Inr [0, 1, 2, 3])"
  by (simp add: calculateDistanceToCoast_def cellCount_def world_ex_def bfs_loop.simps
      upt_rec[of 0] upt_rec[of "Suc 0"] upt_rec[of 2] upt_rec[of 3] upt_rec[of 4])

theorem calculateDistanceToCoast_correct_witness:
  "length (elevations world_ex) = cellCount world_ex \<and>
   length (adjacency world_ex) = cellCount world_ex \<and>
   symmetric_adjacency (adjacency world_ex) \<and>
   calculateDistanceToCoast world_ex = Some (Inr [0, 1, 2, 3]) \<and>
   hops (lists_neighbor (adjacency world_ex)) (elevations world_ex) 2 2 \<and>
   coast_distance_ok (lists_neighbor (adjacency world_ex)) (elevations world_ex) [0, 1, 2, 3] 2 \<and>
   coast_distance_ok (listed_by (adjacency world_ex)) (elevations world_ex) [0, 1, 2, 3] 2"
proof -
  let ?nb = "lists_neighbor (adjacency world_ex)" and ?e = "elevations world_ex"
  have n: "(2 :: nat) < cellCount world_ex" by (simp add: cellCount_def world_ex_def)
  have "hops ?nb ?e 0 0" by (rule hops.zero) (simp_all add: world_ex_def)
  then have "hops ?nb ?e (Suc 0) 1"
    by (rule hops.hop) (simp_all add: world_ex_def lists_neighbor_def)
  then have "hops ?nb ?e (Suc (Suc 0)) 2"
    by (rule hops.hop) (simp_all add: world_ex_def lists_neighbor_def)
  then have h: "hops ?nb ?e 2 2" by (simp add: numeral_2_eq_2)
  show ?thesis
    using calculateDistanceToCoast_correct[OF world_ex_ok(3,4)] n h world_ex_ok(3,4,6)
    unfolding calculateDistanceToCoast_world_ex by simp
qed

section \<open>River generation (World.generateRivers)\<close>

text \<open>
  The four passes of \<open>generateRivers\<close> are separate functions, composed in \<open>generateRivers\<close>.
  The array \<open>downhill\<close> is an \<open>Int32Array\<close> with the sentinel -1. In the scan of the
  neighbours, an index outside the arrays reads \<open>undefined\<close>, for which both comparisons are
  false, and is skipped. The threshold 0.05 is the real 5/100: no Float32 value lies between
  5/100 and the double nearest to it.

  The flux array is a \<open>Float32Array\<close>: a list of reals, every store rounded by \<open>fround\<close>.
  The rounding of the platform is \<open>float32\<close>, defined below; the theorem on the flux is about
  it.

  \<open>sortedIndices.sort(compare)\<close> is the library sort. The comparator is a total preorder, so
  the sort returns a permutation ordered by it; the model is the stable insertion sort, and
  the theorems below use only that the result is an ordered permutation.

  The list \<open>riverSegments\<close> is converted to a \<open>Float32Array\<close>, which rounds each number
  by \<open>fround\<close>.
\<close>

text \<open>
  Pass B: \<open>scan_downhill\<close> is the loop over the neighbours of cell \<open>i\<close>, with the state
  \<open>(bestNeighbor, lowestH, bestDist)\<close>; \<open>assign_downhill\<close> is the loop over the cells.
\<close>

fun scan_downhill ::
  "real list \<Rightarrow> int list \<Rightarrow> nat list \<Rightarrow> int \<times> real \<times> int \<Rightarrow> int \<times> real \<times> int" where
  "scan_downhill elev distToCoast [] s = s"
| "scan_downhill elev distToCoast (nId # ns) (bestNeighbor, lowestH, bestDist) =
     (if nId < length elev then
        (let nH = elev ! nId;
             nDist = distToCoast ! nId
         in if nH < lowestH
            then scan_downhill elev distToCoast ns (int nId, nH, nDist)
            else if nH = lowestH \<and> nDist < bestDist
            then scan_downhill elev distToCoast ns (int nId, lowestH, nDist)
            else scan_downhill elev distToCoast ns (bestNeighbor, lowestH, bestDist))
      else scan_downhill elev distToCoast ns (bestNeighbor, lowestH, bestDist))"

fun assign_downhill ::
  "nat list list \<Rightarrow> real list \<Rightarrow> int list \<Rightarrow> nat list \<Rightarrow> int list \<Rightarrow> error + int list" where
  "assign_downhill adj elev distToCoast [] downhill = Inr downhill"
| "assign_downhill adj elev distToCoast (i # is) downhill =
     (if elev ! i \<le> 5 / 100 then assign_downhill adj elev distToCoast is downhill
      else if length adj \<le> i then Inl TypeError
      else assign_downhill adj elev distToCoast is
             (downhill[i := fst (scan_downhill elev distToCoast (adj ! i)
                                   (- 1, elev ! i, distToCoast ! i))]))"

text \<open>Pass C: the comparator of the sort, the sort, and the accumulation loop.\<close>

definition river_compare :: "real list \<Rightarrow> int list \<Rightarrow> nat comparator" where
  "river_compare elev distToCoast a b =
     (if elev ! b \<noteq> elev ! a then elev ! b - elev ! a
      else real_of_int (distToCoast ! b - distToCoast ! a))"

fun insert_sorted :: "'a comparator \<Rightarrow> 'a \<Rightarrow> 'a list \<Rightarrow> 'a list" where
  "insert_sorted compare x [] = [x]"
| "insert_sorted compare x (y # ys) =
     (if compare x y < 0 then x # y # ys else y # insert_sorted compare x ys)"

fun sort_with :: "'a comparator \<Rightarrow> 'a list \<Rightarrow> 'a list \<Rightarrow> 'a list" where
  "sort_with compare [] sorted_part = sorted_part"
| "sort_with compare (x # xs) sorted_part = sort_with compare xs (insert_sorted compare x sorted_part)"

fun accumulate_flux ::
  "(real \<Rightarrow> real) \<Rightarrow> real list \<Rightarrow> int list \<Rightarrow> nat list \<Rightarrow> real list \<Rightarrow> real list" where
  "accumulate_flux fround elev downhill [] flux = flux"
| "accumulate_flux fround elev downhill (i # is) flux =
     (let target = downhill ! i
      in if target \<ge> 0 \<and> elev ! i > 0
         then accumulate_flux fround elev downhill is
                (flux[nat target := fround (flux ! nat target + flux ! i)])
         else accumulate_flux fround elev downhill is flux)"



text \<open>The passes on the arrays of a world, and their composition.\<close>

definition river_downhill :: "world \<Rightarrow> int list \<Rightarrow> error + int list" where
  "river_downhill w distToCoast =
     assign_downhill (adjacency w) (elevations w) distToCoast [0..<cellCount w]
       (replicate (cellCount w) (- 1))"

definition river_order :: "world \<Rightarrow> int list \<Rightarrow> nat list" where
  "river_order w distToCoast =
     sort_with (river_compare (elevations w) distToCoast) [0..<cellCount w] []"

definition river_flux :: "(real \<Rightarrow> real) \<Rightarrow> world \<Rightarrow> int list \<Rightarrow> int list \<Rightarrow> real list" where
  "river_flux fround w distToCoast downhill =
     accumulate_flux fround (elevations w) downhill (river_order w distToCoast)
       (replicate (cellCount w) (fround 1))"


text \<open>A world of three cells in a row: the sea and two cells of the same elevation.\<close>

definition plateau_world :: world where
  "plateau_world = \<lparr>points = [0, 0, 1, 0, 2, 0], adjacency = [[1], [0, 2], [1]],
     elevations = [-1, 1, 1], moisture = [0, 0, 0]\<rparr>"

subsection \<open>Pass B: the downhill target\<close>

text \<open>
  \<open>lower_key elev distToCoast n i\<close>: cell \<open>n\<close> is strictly lower than cell \<open>i\<close>, or as high and
  strictly closer to the coast; \<open>key_less\<close> is the same order on pairs
  (elevation, coast distance).
\<close>

definition key_less :: "real \<times> int \<Rightarrow> real \<times> int \<Rightarrow> bool" where
  "key_less a b \<longleftrightarrow> fst a < fst b \<or> (fst a = fst b \<and> snd a < snd b)"

definition lower_key :: "real list \<Rightarrow> int list \<Rightarrow> nat \<Rightarrow> nat \<Rightarrow> bool" where
  "lower_key elev distToCoast n i \<longleftrightarrow>
     elev ! n < elev ! i \<or> (elev ! n = elev ! i \<and> distToCoast ! n < distToCoast ! i)"

lemma key_less_trans: "key_less a b \<Longrightarrow> key_less b c \<Longrightarrow> key_less a c"
  unfolding key_less_def by auto

lemma key_less_irrefl: "\<not> key_less a a"
  unfolding key_less_def by auto

lemma lower_key_key_less:
  "lower_key elev distToCoast n i = key_less (elev ! n, distToCoast ! n) (elev ! i, distToCoast ! i)"
  unfolding lower_key_def key_less_def by simp

lemma scan_downhill_result:
  "scan_downhill elev dc ns (b0, h0, d0) = (b, h, d) \<Longrightarrow>
   ((b, h, d) = (b0, h0, d0) \<or>
    (\<exists>n \<in> set ns. n < length elev \<and> b = int n \<and> h = elev ! n \<and> d = dc ! n \<and>
        key_less (h, d) (h0, d0))) \<and>
   (\<forall>n \<in> set ns. n < length elev \<longrightarrow> \<not> key_less (elev ! n, dc ! n) (h, d))"
proof (induction ns arbitrary: b0 h0 d0)
  case Nil
  then show ?case by simp
next
  case (Cons n ns)
  define s1 where "s1 =
    (if n < length elev then
       (if elev ! n < h0 then (int n, elev ! n, dc ! n)
        else if elev ! n = h0 \<and> dc ! n < d0 then (int n, h0, dc ! n)
        else (b0, h0, d0))
     else (b0, h0, d0))"
  obtain b1 h1 d1 where s1: "s1 = (b1, h1, d1)" by (cases s1) auto
  have run: "scan_downhill elev dc ns (b1, h1, d1) = (b, h, d)"
    using Cons.prems s1 unfolding s1_def by (auto simp: Let_def split: if_splits)
  have first: "(b1, h1, d1) = (b0, h0, d0) \<or>
      (n < length elev \<and> b1 = int n \<and> h1 = elev ! n \<and> d1 = dc ! n \<and> key_less (h1, d1) (h0, d0))"
    using s1 unfolding s1_def key_less_def by (auto split: if_splits)
  have nmin: "n < length elev \<Longrightarrow> \<not> key_less (elev ! n, dc ! n) (h1, d1)"
    using s1 unfolding s1_def key_less_def by (auto split: if_splits)
  from Cons.IH[OF run]
  have rest: "(b, h, d) = (b1, h1, d1) \<or>
      (\<exists>m \<in> set ns. m < length elev \<and> b = int m \<and> h = elev ! m \<and> d = dc ! m \<and>
          key_less (h, d) (h1, d1))"
    and rmin: "\<forall>m \<in> set ns. m < length elev \<longrightarrow> \<not> key_less (elev ! m, dc ! m) (h, d)"
    by blast+
  have le1: "(h, d) = (h1, d1) \<or> key_less (h, d) (h1, d1)" using rest by auto
  have le0: "(h1, d1) = (h0, d0) \<or> key_less (h1, d1) (h0, d0)" using first by auto
  have a: "(b, h, d) = (b0, h0, d0) \<or>
    (\<exists>m \<in> set (n # ns). m < length elev \<and> b = int m \<and> h = elev ! m \<and> d = dc ! m \<and>
        key_less (h, d) (h0, d0))"
  proof (cases "(b, h, d) = (b1, h1, d1)")
    case True
    then show ?thesis using first by auto
  next
    case False
    then obtain m where m: "m \<in> set ns" "m < length elev" "b = int m" "h = elev ! m" "d = dc ! m"
      "key_less (h, d) (h1, d1)" using rest by blast
    have "key_less (h, d) (h0, d0)" using m(6) le0 key_less_trans by metis
    then show ?thesis using m by auto
  qed
  have "\<not> key_less (elev ! n, dc ! n) (h, d)" if "n < length elev"
    using nmin[OF that] le1 key_less_trans by metis
  then have b: "\<forall>m \<in> set (n # ns). m < length elev \<longrightarrow> \<not> key_less (elev ! m, dc ! m) (h, d)"
    using rmin by simp
  show ?case using a b by blast
qed

lemma assign_downhill_result:
  "set is \<subseteq> {..<length adj} \<Longrightarrow>
   \<exists>downhill'. assign_downhill adj elev dc is downhill = Inr downhill' \<and>
     length downhill' = length downhill \<and>
     (\<forall>i < length downhill. downhill' ! i =
        (if i \<in> set is \<and> 5 / 100 < elev ! i
         then fst (scan_downhill elev dc (adj ! i) (- 1, elev ! i, dc ! i))
         else downhill ! i))"
proof (induction "is" arbitrary: downhill)
  case Nil
  then show ?case by simp
next
  case (Cons x xs)
  have x: "x < length adj" and xs: "set xs \<subseteq> {..<length adj}" using Cons.prems by simp_all
  define v where "v = fst (scan_downhill elev dc (adj ! x) (- 1, elev ! x, dc ! x))"
  define d1 where "d1 = (if elev ! x \<le> 5 / 100 then downhill else downhill[x := v])"
  have run: "assign_downhill adj elev dc (x # xs) downhill = assign_downhill adj elev dc xs d1"
    using x by (simp add: d1_def v_def)
  from Cons.IH[OF xs, of d1]
  obtain downhill' where r: "assign_downhill adj elev dc xs d1 = Inr downhill'"
    "length downhill' = length d1"
    "\<forall>i < length d1. downhill' ! i =
        (if i \<in> set xs \<and> 5 / 100 < elev ! i
         then fst (scan_downhill elev dc (adj ! i) (- 1, elev ! i, dc ! i))
         else d1 ! i)" by blast
  have len: "length d1 = length downhill" by (simp add: d1_def)
  have "\<forall>i < length downhill. downhill' ! i =
        (if i \<in> set (x # xs) \<and> 5 / 100 < elev ! i
         then fst (scan_downhill elev dc (adj ! i) (- 1, elev ! i, dc ! i))
         else downhill ! i)"
  proof (intro allI impI)
    fix i assume i: "i < length downhill"
    show "downhill' ! i =
        (if i \<in> set (x # xs) \<and> 5 / 100 < elev ! i
         then fst (scan_downhill elev dc (adj ! i) (- 1, elev ! i, dc ! i))
         else downhill ! i)"
    proof (cases "i = x")
      case True
      have "d1 ! x = (if 5 / 100 < elev ! x then v else downhill ! x)"
        using i True by (simp add: d1_def)
      then show ?thesis using r(3) i len True by (simp add: v_def)
    next
      case False
      then have "d1 ! i = downhill ! i" by (simp add: d1_def)
      then show ?thesis using r(3) i len False by simp
    qed
  qed
  then show ?case using run r(1,2) len by simp
qed

text \<open>
  \<open>downhill_ok adj elev distToCoast downhill i\<close>: what pass B has stored at cell \<open>i\<close>.
\<close>

definition downhill_ok ::
  "nat list list \<Rightarrow> real list \<Rightarrow> int list \<Rightarrow> int list \<Rightarrow> nat \<Rightarrow> bool" where
  "downhill_ok adj elev distToCoast downhill i \<longleftrightarrow>
     (if elev ! i \<le> 5 / 100 then downhill ! i = - 1
      else (downhill ! i = - 1 \<and>
            (\<forall>n \<in> set (adj ! i). n < length elev \<longrightarrow> \<not> lower_key elev distToCoast n i)) \<or>
           (\<exists>t \<in> set (adj ! i). t < length elev \<and> downhill ! i = int t \<and>
               lower_key elev distToCoast t i \<and>
               (\<forall>n \<in> set (adj ! i). n < length elev \<longrightarrow> \<not> lower_key elev distToCoast n t)))"

lemma scan_downhill_ok:
  assumes "scan_downhill elev dc ns (- 1, elev ! i, dc ! i) = (b, h, d)"
  shows "(b = - 1 \<and> (\<forall>n \<in> set ns. n < length elev \<longrightarrow> \<not> lower_key elev dc n i)) \<or>
         (\<exists>t \<in> set ns. t < length elev \<and> b = int t \<and> lower_key elev dc t i \<and>
             (\<forall>n \<in> set ns. n < length elev \<longrightarrow> \<not> lower_key elev dc n t))"
proof -
  from scan_downhill_result[OF assms]
  have r: "(b, h, d) = (- 1, elev ! i, dc ! i) \<or>
      (\<exists>n \<in> set ns. n < length elev \<and> b = int n \<and> h = elev ! n \<and> d = dc ! n \<and>
          key_less (h, d) (elev ! i, dc ! i))"
    and m: "\<forall>n \<in> set ns. n < length elev \<longrightarrow> \<not> key_less (elev ! n, dc ! n) (h, d)"
    by blast+
  show ?thesis
  proof (cases "(b, h, d) = (- 1, elev ! i, dc ! i)")
    case True
    then show ?thesis using m by (simp add: lower_key_key_less)
  next
    case False
    then obtain t where t: "t \<in> set ns" "t < length elev" "b = int t" "h = elev ! t" "d = dc ! t"
      "key_less (h, d) (elev ! i, dc ! i)" using r by blast
    have "lower_key elev dc t i" using t(4,5,6) by (simp add: lower_key_key_less)
    moreover have "\<forall>n \<in> set ns. n < length elev \<longrightarrow> \<not> lower_key elev dc n t"
      using m t(4,5) by (simp add: lower_key_key_less)
    ultimately show ?thesis using t(1,2,3) by blast
  qed
qed

lemma river_downhill_ok:
  assumes le: "length (elevations w) = cellCount w"
    and la: "length (adjacency w) = cellCount w"
  shows "\<exists>downhill. river_downhill w dc = Inr downhill \<and> length downhill = cellCount w \<and>
           (\<forall>i < cellCount w. downhill_ok (adjacency w) (elevations w) dc downhill i)"
proof -
  let ?N = "cellCount w" and ?adj = "adjacency w" and ?e = "elevations w"
  have "set [0..<?N] \<subseteq> {..<length ?adj}" using la by auto
  from assign_downhill_result[OF this, of ?e dc "replicate ?N (- 1)"]
  obtain downhill where r: "assign_downhill ?adj ?e dc [0..<?N] (replicate ?N (- 1)) = Inr downhill"
    "length downhill = length (replicate ?N (- 1 :: int))"
    "\<forall>i < length (replicate ?N (- 1 :: int)). downhill ! i =
        (if i \<in> set [0..<?N] \<and> 5 / 100 < ?e ! i
         then fst (scan_downhill ?e dc (?adj ! i) (- 1, ?e ! i, dc ! i))
         else replicate ?N (- 1) ! i)" by blast
  have "downhill_ok ?adj ?e dc downhill i" if i: "i < ?N" for i
  proof (cases "?e ! i \<le> 5 / 100")
    case True
    then have "downhill ! i = - 1" using r(3) i by simp
    then show ?thesis using True by (simp add: downhill_ok_def)
  next
    case False
    obtain b h d where s: "scan_downhill ?e dc (?adj ! i) (- 1, ?e ! i, dc ! i) = (b, h, d)"
      by (cases "scan_downhill ?e dc (?adj ! i) (- 1, ?e ! i, dc ! i)") auto
    have "downhill ! i = b" using r(3) i False s by simp
    then show ?thesis using scan_downhill_ok[OF s] False unfolding downhill_ok_def by simp
  qed
  then show ?thesis using r(1,2) unfolding river_downhill_def by simp
qed

text \<open>
  C2 (as amended). For every cell with elevation above 0.05 the downhill target, when one is
  assigned, is a cell of the cached neighbour list that is strictly lower than the cell, or as
  high as the cell and strictly closer to the coast; no neighbour is lower than the target, or
  as high as it and closer to the coast. A cell none of whose neighbours is strictly lower, or
  as high and strictly closer to the coast, keeps -1, and so does every cell with elevation at
  most 0.05.
\<close>

theorem river_downhill_target:
  assumes "length (elevations w) = cellCount w"
    and "length (adjacency w) = cellCount w"
  shows "\<exists>downhill. river_downhill w distToCoast = Inr downhill \<and>
           length downhill = cellCount w \<and>
           (\<forall>i < cellCount w.
              downhill_ok (adjacency w) (elevations w) distToCoast downhill i)"
  using river_downhill_ok[OF assms] .

lemma plateau_world_downhill:
  "river_downhill plateau_world [0, 1, 2] = Inr [- 1, 0, 1]"
  by (simp add: river_downhill_def cellCount_def plateau_world_def
      upt_rec[of 0] upt_rec[of "Suc 0"] upt_rec[of 2] upt_rec[of 3])

theorem river_downhill_strictly_lower_counterexample:
  "fillSinks id plateau_world = Inr plateau_world \<and>
   calculateDistanceToCoast plateau_world = Some (Inr [0, 1, 2]) \<and>
   river_downhill plateau_world [0, 1, 2] = Inr [- 1, 0, 1] \<and>
   5 / 100 < elevations plateau_world ! 2 \<and>
   adjacency plateau_world ! 2 = [1] \<and>
   \<not> elevations plateau_world ! 1 < elevations plateau_world ! 2"
proof -
  have "fillSinks id plateau_world = Inr plateau_world"
    by (simp add: fillSinks_def cellCount_def plateau_world_def
      upt_rec[of 0] upt_rec[of "Suc 0"] upt_rec[of 2] upt_rec[of 3]
      push_def pop_def bubbleUp.simps bubbleDown.simps swap_def elev_compare_def epsilon_def Let_def)
  moreover have "calculateDistanceToCoast plateau_world = Some (Inr [0, 1, 2])"
    by (simp add: calculateDistanceToCoast_def cellCount_def plateau_world_def bfs_loop.simps
      upt_rec[of 0] upt_rec[of "Suc 0"] upt_rec[of 2] upt_rec[of 3])
  ultimately show ?thesis using plateau_world_downhill by (simp add: plateau_world_def)
qed

theorem river_downhill_target_witness:
  "length (elevations plateau_world) = cellCount plateau_world \<and>
   length (adjacency plateau_world) = cellCount plateau_world \<and>
   river_downhill plateau_world [0, 1, 2] = Inr [- 1, 0, 1] \<and>
   downhill_ok (adjacency plateau_world) (elevations plateau_world) [0, 1, 2] [- 1, 0, 1] 2 \<and>
   5 / 100 < elevations plateau_world ! 2 \<and>
   lower_key (elevations plateau_world) [0, 1, 2] 1 2"
proof -
  have l: "length (elevations plateau_world) = cellCount plateau_world"
    "length (adjacency plateau_world) = cellCount plateau_world"
    "(2 :: nat) < cellCount plateau_world"
    by (simp_all add: plateau_world_def cellCount_def)
  have "lower_key (elevations plateau_world) [0, 1, 2] 1 2"
    by (simp add: lower_key_def plateau_world_def)
  moreover have "5 / 100 < elevations plateau_world ! 2" by (simp add: plateau_world_def)
  ultimately show ?thesis
    using river_downhill_target[OF l(1,2), of "[0, 1, 2]"] l
    unfolding plateau_world_downhill by simp
qed

subsection \<open>The downhill relation has no cycle\<close>

text \<open>
  \<open>follow downhill steps i\<close> follows the downhill targets from cell \<open>i\<close> for at most \<open>steps\<close>
  steps and returns the cell without a target that it has reached, if any.
  \<open>drain_rel\<close> links a cell with elevation above 0 to its downhill target.
  \<open>key_rank\<close> counts the cells below a cell in the order \<open>lower_key\<close>.
\<close>

fun follow :: "int list \<Rightarrow> nat \<Rightarrow> nat \<Rightarrow> nat option" where
  "follow downhill 0 i = (if downhill ! i < 0 then Some i else None)"
| "follow downhill (Suc steps) i =
     (if downhill ! i < 0 then Some i else follow downhill steps (nat (downhill ! i)))"

definition drain_rel :: "real list \<Rightarrow> int list \<Rightarrow> (nat \<times> nat) set" where
  "drain_rel elev downhill =
     {(i, t). i < length downhill \<and> 0 < elev ! i \<and> downhill ! i = int t}"

definition key_rank :: "real list \<Rightarrow> int list \<Rightarrow> nat \<Rightarrow> nat" where
  "key_rank elev dc i = card {j. j < length elev \<and> lower_key elev dc j i}"

lemma lower_key_trans:
  "lower_key elev dc a b \<Longrightarrow> lower_key elev dc b c \<Longrightarrow> lower_key elev dc a c"
  unfolding lower_key_key_less by (rule key_less_trans)

lemma lower_key_irrefl: "\<not> lower_key elev dc a a"
  unfolding lower_key_key_less by (rule key_less_irrefl)

lemma key_rank_less:
  assumes "t < length elev" "lower_key elev dc t i"
  shows "key_rank elev dc t < key_rank elev dc i"
proof -
  let ?A = "{j. j < length elev \<and> lower_key elev dc j t}"
  let ?B = "{j. j < length elev \<and> lower_key elev dc j i}"
  have "?A \<subseteq> ?B" using lower_key_trans assms(2) by blast
  moreover have "t \<in> ?B" "t \<notin> ?A" using assms lower_key_irrefl by auto
  ultimately have "?A \<subset> ?B" by blast
  moreover have "finite ?B" by simp
  ultimately show ?thesis unfolding key_rank_def by (rule psubset_card_mono[rotated])
qed

lemma key_rank_bound:
  assumes "i < length elev"
  shows "key_rank elev dc i < length elev"
proof -
  have "{j. j < length elev \<and> lower_key elev dc j i} \<subseteq> {..<length elev} - {i}"
    using lower_key_irrefl by auto
  then have "key_rank elev dc i \<le> card ({..<length elev} - {i})"
    unfolding key_rank_def by (intro card_mono) simp_all
  also have "\<dots> < length elev" using assms by (simp add: card_Diff_singleton_if)
  finally show ?thesis .
qed

lemma downhill_ok_link:
  assumes "downhill_ok adj elev dc downhill i" "downhill ! i \<noteq> - 1"
  shows "0 \<le> downhill ! i \<and> nat (downhill ! i) < length elev \<and> 5 / 100 < elev ! i \<and>
         nat (downhill ! i) \<in> set (adj ! i) \<and> lower_key elev dc (nat (downhill ! i)) i"
proof -
  have "\<not> elev ! i \<le> 5 / 100" using assms unfolding downhill_ok_def by auto
  then obtain t where "t \<in> set (adj ! i)" "t < length elev" "downhill ! i = int t"
    "lower_key elev dc t i"
    using assms unfolding downhill_ok_def by auto
  then show ?thesis using \<open>\<not> elev ! i \<le> 5 / 100\<close> by simp
qed

lemma follow_terminates:
  assumes ok: "\<forall>i < length elev. downhill_ok adj elev dc downhill i"
  shows "i < length elev \<Longrightarrow> key_rank elev dc i \<le> steps \<Longrightarrow>
         \<exists>j. follow downhill steps i = Some j \<and> j < length elev \<and> downhill ! j = - 1"
proof (induction steps arbitrary: i)
  case 0
  have "downhill ! i = - 1"
  proof (rule ccontr)
    assume "downhill ! i \<noteq> - 1"
    then have "nat (downhill ! i) < length elev" "lower_key elev dc (nat (downhill ! i)) i"
      using downhill_ok_link ok 0(1) by blast+
    then show False using key_rank_less 0(2) by fastforce
  qed
  then show ?case using 0(1) by simp
next
  case (Suc steps)
  show ?case
  proof (cases "downhill ! i = - 1")
    case True
    then show ?thesis using Suc.prems(1) by simp
  next
    case False
    then have l: "0 \<le> downhill ! i" "nat (downhill ! i) < length elev"
      "lower_key elev dc (nat (downhill ! i)) i"
      using downhill_ok_link ok Suc.prems(1) by blast+
    have "key_rank elev dc (nat (downhill ! i)) \<le> steps"
      using key_rank_less[OF l(2,3)] Suc.prems(2) by simp
    from Suc.IH[OF l(2) this] show ?thesis using l(1) by simp
  qed
qed

lemma drain_rel_acyclic:
  assumes ok: "\<forall>i < length elev. downhill_ok adj elev dc downhill i"
    and len: "length downhill = length elev"
  shows "acyclic (drain_rel elev downhill)"
proof -
  have "(drain_rel elev downhill)\<inverse> \<subseteq> measure (key_rank elev dc)"
  proof
    fix p assume "p \<in> (drain_rel elev downhill)\<inverse>"
    then obtain t i where p: "p = (t, i)" "i < length downhill" "downhill ! i = int t"
      unfolding drain_rel_def by auto
    then have "downhill ! i \<noteq> - 1" by simp
    then have "nat (downhill ! i) < length elev" "lower_key elev dc (nat (downhill ! i)) i"
      using downhill_ok_link ok p(2) len by (metis)+
    then have "key_rank elev dc t < key_rank elev dc i" using key_rank_less p(3) by simp
    then show "p \<in> measure (key_rank elev dc)" using p(1) by simp
  qed
  then have "wf ((drain_rel elev downhill)\<inverse>)" by (rule wf_subset[OF wf_measure])
  then have "acyclic ((drain_rel elev downhill)\<inverse>)" by (rule wf_acyclic)
  then show ?thesis by (simp only: acyclic_converse)
qed

text \<open>
  C4. The relation that links a cell with elevation above 0 to its downhill target has no
  cycle (no cell is its own ancestor through downhill chains), and following the downhill
  targets from any cell reaches a cell without a target in at most N steps, N being the cell
  count.
\<close>

theorem river_downhill_acyclic:
  assumes "length (elevations w) = cellCount w"
    and "length (adjacency w) = cellCount w"
  shows "\<exists>downhill. river_downhill w distToCoast = Inr downhill \<and>
           acyclic (drain_rel (elevations w) downhill) \<and>
           (\<forall>i < cellCount w. \<exists>j. follow downhill (cellCount w) i = Some j \<and>
                j < cellCount w \<and> downhill ! j = - 1)"
proof -
  obtain downhill where r: "river_downhill w distToCoast = Inr downhill"
    "length downhill = cellCount w"
    "\<forall>i < cellCount w. downhill_ok (adjacency w) (elevations w) distToCoast downhill i"
    using river_downhill_ok[OF assms] by blast
  have ok: "\<forall>i < length (elevations w).
      downhill_ok (adjacency w) (elevations w) distToCoast downhill i"
    using r(3) assms(1) by simp
  have "acyclic (drain_rel (elevations w) downhill)"
    using drain_rel_acyclic[OF ok] r(2) assms(1) by simp
  moreover have "\<exists>j. follow downhill (cellCount w) i = Some j \<and> j < cellCount w \<and>
      downhill ! j = - 1" if "i < cellCount w" for i
  proof -
    have "i < length (elevations w)" using that assms(1) by simp
    moreover from this have "key_rank (elevations w) distToCoast i \<le> cellCount w"
      using key_rank_bound[of i "elevations w" distToCoast] assms(1) by simp
    ultimately show ?thesis using follow_terminates[OF ok] assms(1) by simp
  qed
  ultimately show ?thesis using r(1) by blast
qed

theorem river_downhill_acyclic_witness:
  "length (elevations plateau_world) = cellCount plateau_world \<and>
   length (adjacency plateau_world) = cellCount plateau_world \<and>
   river_downhill plateau_world [0, 1, 2] = Inr [- 1, 0, 1] \<and>
   acyclic (drain_rel (elevations plateau_world) [- 1, 0, 1]) \<and>
   (2, 1) \<in> drain_rel (elevations plateau_world) [- 1, 0, 1] \<and>
   (\<exists>j. follow [- 1, 0, 1] (cellCount plateau_world) 2 = Some j \<and> j < cellCount plateau_world \<and>
        [- 1, 0, 1] ! j = (- 1 :: int)) \<and>
   follow [- 1, 0, 1] 3 2 = Some 0"
proof -
  have l: "length (elevations plateau_world) = cellCount plateau_world"
    "length (adjacency plateau_world) = cellCount plateau_world"
    "(2 :: nat) < cellCount plateau_world"
    by (simp_all add: plateau_world_def cellCount_def)
  have "(2, 1) \<in> drain_rel (elevations plateau_world) [- 1, 0, 1]"
    by (simp add: drain_rel_def plateau_world_def)
  moreover have "follow [- 1, 0, 1] 3 2 = Some 0" by (simp add: numeral_3_eq_3)
  ultimately show ?thesis
    using river_downhill_acyclic[OF l(1,2), of "[0, 1, 2]"] l
    unfolding plateau_world_downhill by simp
qed

subsection \<open>Pass C: the processing order and the flux\<close>

lemma set_insert_sorted: "set (insert_sorted c x ys) = insert x (set ys)"
  by (induction ys) auto

lemma mset_insert_sorted: "mset (insert_sorted c x ys) = add_mset x (mset ys)"
  by (induction ys) auto

lemma sorted_insert_sorted:
  assumes tp: "total_preorder c"
  shows "sorted_wrt (\<lambda>a b. c a b \<le> 0) ys \<Longrightarrow> sorted_wrt (\<lambda>a b. c a b \<le> 0) (insert_sorted c x ys)"
proof (induction ys)
  case Nil
  then show ?case by simp
next
  case (Cons y ys)
  have tr: "\<And>a b d. c a b \<le> 0 \<Longrightarrow> c b d \<le> 0 \<Longrightarrow> c a d \<le> 0"
    using tp unfolding total_preorder_def by blast
  show ?case
  proof (cases "c x y < 0")
    case True
    then have "c x y \<le> 0" by simp
    then have "\<forall>z \<in> set (y # ys). c x z \<le> 0" using Cons.prems tr by auto
    then show ?thesis using True Cons.prems by simp
  next
    case False
    then have "c y x \<le> 0" using tp_le[OF tp] by blast
    then have "\<forall>z \<in> set (insert_sorted c x ys). c y z \<le> 0"
      using Cons.prems by (auto simp: set_insert_sorted)
    then show ?thesis using False Cons by simp
  qed
qed

lemma sort_with_result:
  assumes tp: "total_preorder c"
  shows "sorted_wrt (\<lambda>a b. c a b \<le> 0) acc \<Longrightarrow>
         sorted_wrt (\<lambda>a b. c a b \<le> 0) (sort_with c xs acc) \<and>
         mset (sort_with c xs acc) = mset xs + mset acc"
proof (induction xs arbitrary: acc)
  case Nil
  then show ?case by simp
next
  case (Cons x xs)
  have "sorted_wrt (\<lambda>a b. c a b \<le> 0) (insert_sorted c x acc)"
    using sorted_insert_sorted[OF tp Cons.prems] .
  from Cons.IH[OF this] show ?case by (simp add: mset_insert_sorted)
qed

lemma river_compare_total_preorder: "total_preorder (river_compare elev dc)"
  unfolding total_preorder_def river_compare_def
  by (intro conjI allI) (auto split: if_splits)

lemma river_compare_lower:
  "lower_key elev dc t x \<Longrightarrow> 0 < river_compare elev dc t x"
  unfolding lower_key_def river_compare_def by auto

lemma river_order_result:
  "sorted_wrt (\<lambda>a b. river_compare (elevations w) dc a b \<le> 0) (river_order w dc) \<and>
   distinct (river_order w dc) \<and> set (river_order w dc) = {..<cellCount w}"
proof -
  let ?c = "river_compare (elevations w) dc"
  have r: "sorted_wrt (\<lambda>a b. ?c a b \<le> 0) (river_order w dc)"
    "mset (river_order w dc) = mset [0..<cellCount w]"
    using sort_with_result[OF river_compare_total_preorder, of elev dc "[]" "[0..<cellCount w]"]
    unfolding river_order_def
    by (simp_all add: sort_with_result[OF river_compare_total_preorder])
  have "distinct (river_order w dc)"
    using r(2) by (metis distinct_upt mset_eq_imp_distinct_iff)
  moreover have "set (river_order w dc) = {..<cellCount w}"
    using r(2) by (metis atLeast_upt mset_eq_setD)
  ultimately show ?thesis using r(1) by simp
qed

text \<open>
  The accumulation loop on whole numbers, without the rounding of the store. The loop of the
  code computes the same numbers as long as the store is exact on the whole numbers up to
  the cell count (\<open>accumulate_flux_exact\<close> below); \<open>exact_upto fround n\<close> says that it is.
\<close>

fun accumulate_count :: "real list \<Rightarrow> int list \<Rightarrow> nat list \<Rightarrow> nat list \<Rightarrow> nat list" where
  "accumulate_count elev downhill [] flux = flux"
| "accumulate_count elev downhill (i # is) flux =
     (let target = downhill ! i
      in if target \<ge> 0 \<and> elev ! i > 0
         then accumulate_count elev downhill is
                (flux[nat target := flux ! nat target + flux ! i])
         else accumulate_count elev downhill is flux)"

definition exact_upto :: "(real \<Rightarrow> real) \<Rightarrow> nat \<Rightarrow> bool" where
  "exact_upto fround n \<longleftrightarrow> (\<forall>k \<le> n. fround (real k) = real k)"

definition live :: "real list \<Rightarrow> int list \<Rightarrow> nat \<Rightarrow> nat list \<Rightarrow> nat set" where
  "live elev downhill n seen = {..<n} - {i \<in> set seen. 0 \<le> downhill ! i \<and> 0 < elev ! i}"

text \<open>
  \<open>inflow elev downhill flux S c\<close>: the sum of the flux of the cells of \<open>S\<close> with elevation
  above 0 whose downhill target is \<open>c\<close>.
  \<open>targets_later\<close>: in the list, every cell with a downhill target and elevation above 0
  comes before its target.
\<close>

definition inflow :: "real list \<Rightarrow> int list \<Rightarrow> nat list \<Rightarrow> nat set \<Rightarrow> nat \<Rightarrow> nat" where
  "inflow elev downhill flux S c =
     (\<Sum>i \<in> S. if downhill ! i = int c \<and> 0 < elev ! i then flux ! i else 0)"

definition targets_later :: "real list \<Rightarrow> int list \<Rightarrow> nat list \<Rightarrow> bool" where
  "targets_later elev downhill order \<longleftrightarrow>
     (\<forall>pre x post. order = pre @ x # post \<and> 0 \<le> downhill ! x \<and> 0 < elev ! x \<longrightarrow>
        nat (downhill ! x) \<in> set post)"

lemma accumulate_count_inv:
  "distinct (seen @ rest) \<Longrightarrow> targets_later elev downhill (seen @ rest) \<Longrightarrow>
   set (seen @ rest) \<subseteq> {..<length flux} \<Longrightarrow>
   \<forall>c < length flux. flux ! c = 1 + inflow elev downhill flux (set seen) c \<Longrightarrow>
   length (accumulate_count elev downhill rest flux) = length flux \<and>
   (\<forall>c < length flux. accumulate_count elev downhill rest flux ! c =
       1 + inflow elev downhill (accumulate_count elev downhill rest flux) (set (seen @ rest)) c)"
proof (induction rest arbitrary: seen flux)
  case Nil
  then show ?case by simp
next
  case (Cons x rest)
  have xd: "x \<notin> set seen" "x \<notin> set rest" using Cons.prems(1) by auto
  have split: "seen @ x # rest = (seen @ [x]) @ rest" by simp
  show ?case
  proof (cases "0 \<le> downhill ! x \<and> 0 < elev ! x")
    case True
    define t where "t = nat (downhill ! x)"
    have tl: "t \<in> set rest"
      using Cons.prems(2) True unfolding targets_later_def t_def by blast
    then have t: "t \<noteq> x" "t \<notin> set seen" "t < length flux"
      using Cons.prems(1,3) by auto
    define flux1 where "flux1 = flux[t := flux ! t + flux ! x]"
    have len1: "length flux1 = length flux" by (simp add: flux1_def)
    have run: "accumulate_count elev downhill (x # rest) flux = accumulate_count elev downhill rest flux1"
      using True by (simp add: flux1_def t_def Let_def)
    have same: "\<And>i. i \<noteq> t \<Longrightarrow> flux1 ! i = flux ! i" by (simp add: flux1_def)
    have dt: "downhill ! x = int t" using True by (simp add: t_def)
    have samed: "\<forall>i \<in> set seen. flux1 ! i = flux ! i"
    proof
      fix i assume "i \<in> set seen"
      then have "i \<noteq> t" using t(2) by auto
      then show "flux1 ! i = flux ! i" by (rule same)
    qed
    have inv1: "\<forall>c < length flux1. flux1 ! c = 1 + inflow elev downhill flux1 (set (seen @ [x])) c"
    proof (intro allI impI)
      fix c assume c: "c < length flux1"
      have "inflow elev downhill flux1 (set (seen @ [x])) c =
              (if downhill ! x = int c \<and> 0 < elev ! x then flux1 ! x else 0) +
              inflow elev downhill flux1 (set seen) c"
        using xd(1) by (simp add: inflow_def)
      also have "inflow elev downhill flux1 (set seen) c = inflow elev downhill flux (set seen) c"
        unfolding inflow_def using samed by (intro sum.cong) simp_all
      also have "(if downhill ! x = int c \<and> 0 < elev ! x then flux1 ! x else 0) =
                 (if c = t then flux ! x else 0)"
        using True dt same[of x] t(1) by auto
      finally have "1 + inflow elev downhill flux1 (set (seen @ [x])) c =
                    (if c = t then flux ! x else 0) + flux ! c"
        using Cons.prems(4) c len1 by simp
      also have "\<dots> = flux1 ! c" using t(3) same[of c] by (auto simp: flux1_def)
      finally show "flux1 ! c = 1 + inflow elev downhill flux1 (set (seen @ [x])) c" by simp
    qed
    have "length (accumulate_count elev downhill rest flux1) = length flux1 \<and>
       (\<forall>c < length flux1. accumulate_count elev downhill rest flux1 ! c =
           1 + inflow elev downhill (accumulate_count elev downhill rest flux1) (set ((seen @ [x]) @ rest)) c)"
      using Cons.prems(1,2,3) inv1 len1 by (intro Cons.IH) (simp_all only: split[symmetric] len1)
    then show ?thesis unfolding run len1 split by simp
  next
    case False
    have run: "accumulate_count elev downhill (x # rest) flux = accumulate_count elev downhill rest flux"
      using False by (auto simp: Let_def)
    have inv1: "\<forall>c < length flux. flux ! c = 1 + inflow elev downhill flux (set (seen @ [x])) c"
    proof (intro allI impI)
      fix c assume c: "c < length flux"
      have "\<not> (downhill ! x = int c \<and> 0 < elev ! x)" using False by auto
      then have "inflow elev downhill flux (set (seen @ [x])) c = inflow elev downhill flux (set seen) c"
        using xd(1) by (auto simp: inflow_def)
      then show "flux ! c = 1 + inflow elev downhill flux (set (seen @ [x])) c"
        using Cons.prems(4) c by simp
    qed
    have "length (accumulate_count elev downhill rest flux) = length flux \<and>
       (\<forall>c < length flux. accumulate_count elev downhill rest flux ! c =
           1 + inflow elev downhill (accumulate_count elev downhill rest flux) (set ((seen @ [x]) @ rest)) c)"
      using Cons.prems(1,2,3) inv1 by (intro Cons.IH) (simp_all only: split[symmetric])
    then show ?thesis unfolding run split by simp
  qed
qed

lemma accumulate_flux_exact:
  assumes ex: "exact_upto fround n"
  shows "distinct (seen @ rest) \<Longrightarrow> targets_later elev downhill (seen @ rest) \<Longrightarrow>
   set (seen @ rest) \<subseteq> {..<n} \<Longrightarrow> length flux = n \<Longrightarrow>
   (\<Sum>c \<in> live elev downhill n seen. flux ! c) = n \<Longrightarrow>
   accumulate_flux fround elev downhill rest (map real flux) =
     map real (accumulate_count elev downhill rest flux)"
proof (induction rest arbitrary: seen flux)
  case Nil
  then show ?case by simp
next
  case (Cons x rest)
  have xd: "x \<notin> set seen" "x \<notin> set rest" "x < n" using Cons.prems(1,3) by auto
  have split: "seen @ x # rest = (seen @ [x]) @ rest" by simp
  have xl: "x \<in> live elev downhill n seen" using xd by (simp add: live_def)
  have fin: "finite (live elev downhill n seen)" by (simp add: live_def)
  show ?case
  proof (cases "0 \<le> downhill ! x \<and> 0 < elev ! x")
    case True
    define t where "t = nat (downhill ! x)"
    have tl: "t \<in> set rest"
      using Cons.prems(2) True unfolding targets_later_def t_def by blast
    then have t: "t \<noteq> x" "t \<notin> set seen" "t < n"
      using Cons.prems(1,3) by auto
    have tlv: "t \<in> live elev downhill n seen" using t by (simp add: live_def)
    define flux1 where "flux1 = flux[t := flux ! t + flux ! x]"
    have len1: "length flux1 = n" using Cons.prems(4) by (simp add: flux1_def)
    have l1: "live elev downhill n (seen @ [x]) = live elev downhill n seen - {x}"
      using True by (auto simp: live_def)
    have tx: "{t, x} \<subseteq> live elev downhill n seen" using tlv xl by simp
    have "(\<Sum>c \<in> {t, x}. flux ! c) \<le> (\<Sum>c \<in> live elev downhill n seen. flux ! c)"
      using fin tx by (intro sum_mono2) simp_all
    then have bound: "flux ! t + flux ! x \<le> n" using t(1) Cons.prems(5) by simp
    then have exact: "fround (real (flux ! t) + real (flux ! x)) = real (flux ! t + flux ! x)"
      using ex unfolding exact_upto_def by (metis of_nat_add)
    have mass: "(\<Sum>c \<in> live elev downhill n (seen @ [x]). flux1 ! c) = n"
    proof -
      let ?L = "live elev downhill n seen"
      have a: "(\<Sum>c \<in> ?L. flux ! c) = flux ! x + flux ! t + (\<Sum>c \<in> ?L - {x} - {t}. flux ! c)"
        using fin xl tlv t(1) by (simp add: sum.remove[of _ x] sum.remove[of _ t])
      have "(\<Sum>c \<in> ?L - {x}. flux1 ! c) = flux1 ! t + (\<Sum>c \<in> ?L - {x} - {t}. flux1 ! c)"
        using fin tlv t(1) by (simp add: sum.remove[of _ t])
      also have "(\<Sum>c \<in> ?L - {x} - {t}. flux1 ! c) = (\<Sum>c \<in> ?L - {x} - {t}. flux ! c)"
        by (intro sum.cong) (simp_all add: flux1_def)
      also have "flux1 ! t = flux ! t + flux ! x"
        using t(3) Cons.prems(4) by (simp add: flux1_def)
      finally show ?thesis using a Cons.prems(5) unfolding l1 by simp
    qed
    have run: "accumulate_flux fround elev downhill (x # rest) (map real flux) =
               accumulate_flux fround elev downhill rest (map real flux1)"
      using True t(3) xd(3) Cons.prems(4) exact
      by (simp add: flux1_def t_def Let_def map_update)
    have runc: "accumulate_count elev downhill (x # rest) flux = accumulate_count elev downhill rest flux1"
      using True by (simp add: flux1_def t_def Let_def)
    have "accumulate_flux fround elev downhill rest (map real flux1) =
            map real (accumulate_count elev downhill rest flux1)"
      using Cons.prems(1,2,3) len1 mass
      by (intro Cons.IH[of "seen @ [x]"]) (simp_all only: split[symmetric])
    then show ?thesis unfolding run runc .
  next
    case False
    have l1: "live elev downhill n (seen @ [x]) = live elev downhill n seen"
      using False by (auto simp: live_def)
    have run: "accumulate_flux fround elev downhill (x # rest) (map real flux) =
               accumulate_flux fround elev downhill rest (map real flux)"
      using False by (auto simp: Let_def)
    have runc: "accumulate_count elev downhill (x # rest) flux = accumulate_count elev downhill rest flux"
      using False by (auto simp: Let_def)
    have "accumulate_flux fround elev downhill rest (map real flux) =
            map real (accumulate_count elev downhill rest flux)"
      using Cons.prems(1,2,3,4,5)
      by (intro Cons.IH[of "seen @ [x]"]) (simp_all only: split[symmetric] l1)
    then show ?thesis unfolding run runc .
  qed
qed

subsection \<open>The Float32 store, and a long row of cells\<close>

text \<open>
  \<open>float32 x\<close> is the number that a store of \<open>x\<close> into a \<open>Float32Array\<close> leaves there
  (\<open>Math.fround\<close>) for every \<open>x\<close> below the overflow threshold of the format: with \<open>e\<close> the
  binary exponent of \<open>x\<close>, and -126 for the subnormal numbers, the representable numbers
  around \<open>x\<close> are the multiples of \<open>2^(e - 23)\<close>, and \<open>x\<close> is rounded to the nearest of them,
  a tie to the one with the even multiplier (\<open>round_half_even\<close>). The flow volumes of pass C
  stay far below the overflow threshold, beyond which the code stores \<open>Infinity\<close>.
\<close>

definition round_half_even :: "real \<Rightarrow> int" where
  "round_half_even y =
     (let f = \<lfloor>y\<rfloor>; d = y - real_of_int f
      in if d < 1 / 2 then f else if 1 / 2 < d then f + 1 else if even f then f else f + 1)"

definition float32 :: "real \<Rightarrow> real" where
  "float32 x =
     (if x = 0 then 0
      else (let e = max \<lfloor>log 2 \<bar>x\<bar>\<rfloor> (- 126);
                ulp = 2 powr real_of_int (e - 23)
            in real_of_int (round_half_even (x / ulp)) * ulp))"

text \<open>
  A row of \<open>n\<close> cells: the sea at cell 0 and a plateau of elevation 1 behind it, every cell
  next to its two neighbours in the row (\<open>plateau_world\<close> is the row of three cells).
  \<open>row_distance\<close> is its coast distance and \<open>row_downhill\<close> its downhill array.
\<close>

definition row_world :: "nat \<Rightarrow> world" where
  "row_world n = \<lparr>points = concat (map (\<lambda>i. [real i, 0]) [0..<n]),
     adjacency = map (\<lambda>i. if i = 0 then [1] else if i = n - 1 then [n - 2] else [i - 1, i + 1])
                   [0..<n],
     elevations = - 1 # replicate (n - 1) 1, moisture = replicate n 0\<rparr>"

definition row_distance :: "nat \<Rightarrow> int list" where
  "row_distance n = map int [0..<n]"

definition row_downhill :: "nat \<Rightarrow> int list" where
  "row_downhill n = - 1 # map int [0..<n - 1]"

lemma round_half_even_of_int: "round_half_even (real_of_int z) = z"
  by (simp add: round_half_even_def)

lemma float32_multiple:
  assumes "x \<noteq> 0"
    and "x / 2 powr real_of_int (max \<lfloor>log 2 \<bar>x\<bar>\<rfloor> (- 126) - 23) = real_of_int z"
  shows "float32 x = x"
proof -
  let ?u = "2 powr real_of_int (max \<lfloor>log 2 \<bar>x\<bar>\<rfloor> (- 126) - 23)"
  have u: "?u \<noteq> 0" by simp
  have "float32 x = real_of_int (round_half_even (x / ?u)) * ?u"
    using assms(1) by (simp add: float32_def Let_def)
  also have "\<dots> = real_of_int z * ?u" unfolding assms(2) round_half_even_of_int ..
  also have "\<dots> = x" using assms(2)[symmetric] u by simp
  finally show ?thesis .
qed

text \<open>Float32 holds every whole number up to \<open>2^24\<close>, and rounds \<open>2^24 + 1\<close> down to \<open>2^24\<close>.\<close>

lemma float32_nat:
  assumes "k \<le> 2 ^ 24"
  shows "float32 (real k) = real k"
proof (cases "k = 0")
  case True
  then show ?thesis by (simp add: float32_def)
next
  case False
  define e where "e = \<lfloor>log 2 \<bar>real k\<bar>\<rfloor>"
  have k1: "1 \<le> real k" using False by simp
  have e0: "0 \<le> e" unfolding e_def using k1 by simp
  have k24: "real k \<le> 2 ^ 24" using assms by (metis of_nat_le_iff of_nat_numeral of_nat_power)
  have m: "max e (- 126) = e" using e0 by simp
  have lo: "2 powr real_of_int e \<le> real k"
    using floor_log_eq_powr_iff[of "real k" 2 e] k1 unfolding e_def by simp
  have "(2::real) powr real_of_int e \<le> 2 powr 24" using lo k24 by simp
  then have "real_of_int e \<le> 24"
    by (simp only: powr_le_cancel_iff[of 2] one_less_numeral_iff semiring_norm)
  then have e24: "e \<le> 24" by simp
  have "\<exists>z. real k / 2 powr real_of_int (e - 23) = real_of_int z"
  proof (cases "e \<le> 23")
    case True
    have "nat (- (e - 23)) = nat (23 - e)" by simp
    then have "2 powr real_of_int (e - 23) = 1 / 2 ^ nat (23 - e)"
      using powr_int[of 2 "e - 23"] True by (cases "e = 23") (simp_all del: of_int_diff)
    then have "real k / 2 powr real_of_int (e - 23) = real_of_int (int k * 2 ^ nat (23 - e))"
      by simp
    then show ?thesis by blast
  next
    case False
    then have e: "e = 24" using e24 by simp
    then have "2 ^ 24 \<le> real k" using lo by (simp add: powr_int)
    then have "real k = 2 ^ 24" using k24 by simp
    then have "real k / 2 powr real_of_int (e - 23) = real_of_int (2 ^ 23)"
      unfolding e by simp
    then show ?thesis by blast
  qed
  then obtain z where
    "real k / 2 powr real_of_int (max \<lfloor>log 2 \<bar>real k\<bar>\<rfloor> (- 126) - 23) = real_of_int z"
    using m unfolding e_def by auto
  then show ?thesis using float32_multiple[of "real k" z] False by simp
qed

lemma float32_tie: "float32 16777217 = 16777216"
proof -
  have "\<lfloor>log 2 (16777217::real)\<rfloor> = 24"
    using floor_log_eq_powr_iff[of "16777217::real" 2 24] by simp
  then show ?thesis
    by (simp add: float32_def Let_def round_half_even_def)
qed

lemma float32_small: "float32 1 = 1" "float32 2 = 2" "float32 3 = 3"
  using float32_nat[of 1] float32_nat[of 2] float32_nat[of 3] by simp_all

lemma float32_exact_upto: "n \<le> 2 ^ 24 \<Longrightarrow> exact_upto float32 n"
  unfolding exact_upto_def using float32_nat by (meson le_trans)

lemma float32_saturates:
  "((\<lambda>x. float32 (1 + x)) ^^ d) 1 = real (min (Suc d) (2 ^ 24))"
proof (induction d)
  case 0
  then show ?case by simp
next
  case (Suc d)
  show ?case
  proof (cases "Suc d < 2 ^ 24")
    case True
    then have "1 + real (min (Suc d) (2 ^ 24)) = real (Suc (Suc d))" by simp
    moreover have "Suc (Suc d) \<le> 2 ^ 24" using True by simp
    ultimately show ?thesis using Suc float32_nat[of "Suc (Suc d)"] True by simp
  next
    case False
    then have "1 + real (min (Suc d) (2 ^ 24)) = 16777217" by simp
    then show ?thesis using Suc float32_tie False by simp
  qed
qed

text \<open>The passes of \<open>generateRivers\<close> on the row of \<open>n\<close> cells.\<close>

lemma row_cellCount: "cellCount (row_world n) = n"
  by (simp add: row_world_def cellCount_def length_concat comp_def sum_list_triv)

lemma row_lengths:
  "0 < n \<Longrightarrow> length (elevations (row_world n)) = n" "length (adjacency (row_world n)) = n"
  by (simp_all add: row_world_def)

lemma row_elev: "i < n \<Longrightarrow> elevations (row_world n) ! i = (if i = 0 then - 1 else 1)"
  by (cases i) (simp_all add: row_world_def)

lemma row_adj:
  "i < n \<Longrightarrow> adjacency (row_world n) ! i =
     (if i = 0 then [1] else if i = n - 1 then [n - 2] else [i - 1, i + 1])"
  by (simp add: row_world_def)

lemma row_dist: "i < n \<Longrightarrow> row_distance n ! i = int i"
  by (simp add: row_distance_def)

text \<open>\<open>fillSinks\<close> leaves the row as it is: no cell lies below the cell it is reached from.\<close>

lemma seed_cells_skip:
  "\<forall>i \<in> set is. i < length elev \<longrightarrow> 0 < elev ! i \<Longrightarrow>
   seed_cells is (elev, visited, heap) = (elev, visited, heap)"
  by (induction "is") auto

lemma row_seed_cells:
  assumes "0 < n"
  shows "seed_cells [0..<n] (elevations (row_world n), replicate n False, []) =
           (elevations (row_world n), map (\<lambda>i. i \<le> 0) [0..<n], [0])"
proof -
  let ?e = "elevations (row_world n)"
  have len: "length ?e = n" using assms by (simp add: row_lengths)
  have u: "[0..<n] = 0 # [1..<n]" using assms by (simp add: upt_conv_Cons)
  have v: "(replicate n False)[0 := True] = map (\<lambda>i. i \<le> 0) [0..<n]"
    by (rule nth_equalityI) (auto simp: nth_list_update)
  have "seed_cells [0..<n] (?e, replicate n False, []) =
        seed_cells [1..<n] (?e, (replicate n False)[0 := True], push (elev_compare ?e) 0 [])"
    unfolding u using assms len by (simp add: row_elev)
  also have "push (elev_compare ?e) 0 [] = [0]" by (simp add: push_def bubbleUp.simps)
  also have "seed_cells [1..<n] (?e, (replicate n False)[0 := True], [0]) =
             (?e, (replicate n False)[0 := True], [0])"
    by (intro seed_cells_skip) (auto simp: len row_elev)
  finally show ?thesis unfolding v .
qed

lemma row_fill_loop:
  assumes "1 < n"
  shows "k < n \<Longrightarrow>
    fill_loop fround (adjacency (row_world n))
      (elevations (row_world n), map (\<lambda>i. i \<le> k) [0..<n], [k]) = Inr (elevations (row_world n))"
proof (induction "n - k" arbitrary: k)
  case 0
  then show ?case by simp
next
  case (Suc m)
  let ?e = "elevations (row_world n)" and ?adj = "adjacency (row_world n)"
  let ?vis = "map (\<lambda>i. i \<le> k) [0..<n]"
  have k: "k < n" using Suc.prems .
  have len: "length ?e = n" "length ?adj = n" using assms by (simp_all add: row_lengths)
  have p: "pop (\<lambda>v. False) (elev_compare ?e) [k] = (Some k, [])" by (simp add: pop_def)
  have step: "fill_loop fround ?adj (?e, ?vis, [k]) =
      (case visit_neighbors fround k (?adj ! k) (?e, ?vis, []) of
         Inl e \<Rightarrow> Inl e | Inr s' \<Rightarrow> fill_loop fround ?adj s')"
    using k len p by simp
  show ?case
  proof (cases "k = n - 1")
    case True
    then have a: "?adj ! k = [k - 1]" "0 < k" using k assms by (simp_all add: row_adj)
    have "visit_neighbors fround k [k - 1] (?e, ?vis, []) = Inr (?e, ?vis, [])"
      using k a(2) by simp
    then show ?thesis unfolding step a by simp
  next
    case False
    then have k1: "Suc k < n" using k by simp
    have e: "\<not> ?e ! Suc k < ?e ! k" using k k1 by (simp add: row_elev)
    have v: "?vis[Suc k := True] = map (\<lambda>i. i \<le> Suc k) [0..<n]"
    proof (rule nth_equalityI)
      show "length (?vis[Suc k := True]) = length (map (\<lambda>i. i \<le> Suc k) [0..<n])" by simp
    next
      fix i assume "i < length (?vis[Suc k := True])"
      then have "i < n" by simp
      then show "?vis[Suc k := True] ! i = map (\<lambda>i. i \<le> Suc k) [0..<n] ! i"
        using k1 by (cases "i = Suc k") (auto simp: nth_list_update)
    qed
    have pu: "push (elev_compare ?e) (Suc k) [] = [Suc k]" by (simp add: push_def bubbleUp.simps)
    have last: "visit_neighbors fround k [Suc k] (?e, ?vis, []) =
                Inr (?e, map (\<lambda>i. i \<le> Suc k) [0..<n], [Suc k])"
      using k1 e v pu by (simp add: Let_def)
    have "visit_neighbors fround k (?adj ! k) (?e, ?vis, []) =
          Inr (?e, map (\<lambda>i. i \<le> Suc k) [0..<n], [Suc k])"
    proof (cases "k = 0")
      case True
      then show ?thesis using last k by (simp add: row_adj)
    next
      case nz: False
      then have "?adj ! k = [k - 1, Suc k]" using k False by (simp add: row_adj)
      moreover have "visit_neighbors fround k [k - 1, Suc k] (?e, ?vis, []) =
                     visit_neighbors fround k [Suc k] (?e, ?vis, [])"
      proof -
        have "k - 1 < n" using k by arith
        then have "k - 1 < length ?vis" "?vis ! (k - 1)" by simp_all
        then show ?thesis
          unfolding visit_neighbors.simps(2)[of fround k "k - 1" "[Suc k]"] by simp
      qed
      ultimately show ?thesis using last by simp
    qed
    moreover have "fill_loop fround ?adj (?e, map (\<lambda>i. i \<le> Suc k) [0..<n], [Suc k]) = Inr ?e"
      using Suc.hyps(2) k1 by (intro Suc.hyps(1)) simp_all
    ultimately show ?thesis unfolding step by simp
  qed
qed

lemma row_fillSinks:
  assumes "1 < n"
  shows "fillSinks fround (row_world n) = Inr (row_world n)"
proof -
  have n: "0 < n" using assms by simp
  have "fill_loop fround (adjacency (row_world n))
      (elevations (row_world n), map (\<lambda>i. i \<le> 0) [0..<n], [0]) = Inr (elevations (row_world n))"
    using row_fill_loop[OF assms, of 0] n by simp
  then show ?thesis
    unfolding fillSinks_def row_cellCount row_seed_cells[OF n] Let_def by simp
qed

text \<open>The coast distance of cell \<open>i\<close> of the row is \<open>i\<close>.\<close>

lemma row_hops_reach:
  "i < n \<Longrightarrow> hops (lists_neighbor (adjacency (row_world n))) (elevations (row_world n)) i i"
proof (induction i)
  case 0
  then show ?case by (intro hops.zero) (simp_all add: row_lengths row_elev)
next
  case (Suc i)
  have "lists_neighbor (adjacency (row_world n)) i (Suc i)"
    using Suc.prems by (simp add: lists_neighbor_def row_lengths row_adj)
  then show ?case using Suc by (intro hops.hop[of _ _ i i]) (simp_all add: row_lengths)
qed

lemma row_hops_least:
  "hops (lists_neighbor (adjacency (row_world n))) (elevations (row_world n)) k i \<Longrightarrow> i \<le> k"
proof (induction rule: hops.induct)
  case (zero i)
  then show ?case by (cases i) (simp_all add: row_world_def)
next
  case (hop k u v)
  have u: "u < n" "v \<in> set (adjacency (row_world n) ! u)"
    using hop.hyps(2) by (simp_all add: lists_neighbor_def row_lengths)
  then have "v \<le> Suc u" by (auto simp: row_adj split: if_splits)
  then show ?case using hop.IH by simp
qed

lemma row_calculateDistanceToCoast:
  assumes "0 < n"
  shows "calculateDistanceToCoast (row_world n) = Some (Inr (row_distance n))"
proof -
  let ?w = "row_world n"
  let ?nb = "lists_neighbor (adjacency ?w)"
  have le: "length (elevations ?w) = cellCount ?w" "length (adjacency ?w) = cellCount ?w"
    using assms by (simp_all add: row_lengths row_cellCount)
  obtain d q where r: "calculateDistanceToCoast ?w = Some (Inr d)"
    and inv: "bfs_inv (adjacency ?w) (elevations ?w) (d, q, length q)"
    using calculateDistanceToCoast_inv[OF le] by blast
  have len: "length d = n" using inv assms unfolding bfs_inv_def prod.case by (simp add: row_lengths)
  have "d = row_distance n"
  proof (rule nth_equalityI)
    show "length d = length (row_distance n)" using len by (simp add: row_distance_def)
  next
    fix i assume "i < length d"
    then have i: "i < n" using len by simp
    have ok: "coast_distance_ok ?nb (elevations ?w) d i"
      using bfs_final_ok[OF inv, of i] i assms by (simp add: row_lengths)
    have reach: "hops ?nb (elevations ?w) i i" using row_hops_reach[OF i] .
    then have "\<exists>k. hops ?nb (elevations ?w) k i" by blast
    then have c: "0 \<le> d ! i" "hops ?nb (elevations ?w) (nat (d ! i)) i"
      "\<forall>k. hops ?nb (elevations ?w) k i \<longrightarrow> nat (d ! i) \<le> k"
      using ok unfolding coast_distance_ok_def by simp_all
    have "nat (d ! i) \<le> i" using c(3) reach by blast
    moreover have "i \<le> nat (d ! i)" using row_hops_least[OF c(2)] .
    ultimately have "d ! i = int i" using c(1) by simp
    then show "d ! i = row_distance n ! i" using i by (simp add: row_dist)
  qed
  then show ?thesis using r by simp
qed

lemma row_scan:
  assumes "0 < i" "i < n"
  shows "fst (scan_downhill (elevations (row_world n)) (row_distance n) (adjacency (row_world n) ! i)
            (- 1, elevations (row_world n) ! i, row_distance n ! i)) = int (i - 1)"
proof -
  let ?e = "elevations (row_world n)" and ?d = "row_distance n"
  have len: "length ?e = n" using assms by (simp add: row_lengths)
  have e: "?e ! i = 1" "?e ! (i - 1) = (if i = 1 then - 1 else 1)"
    using assms by (simp_all add: row_elev)
  have d: "?d ! i = int i" "?d ! (i - 1) = int (i - 1)" using assms by (simp_all add: row_dist)
  show ?thesis
  proof (cases "i = n - 1")
    case True
    then have "adjacency (row_world n) ! i = [i - 1]" using assms by (simp add: row_adj)
    then show ?thesis using assms len e d by (auto simp: Let_def)
  next
    case False
    then have i1: "i + 1 < n" using assms by simp
    have a: "adjacency (row_world n) ! i = [i - 1, i + 1]" using assms False by (simp add: row_adj)
    have e1: "?e ! (i + 1) = 1" using i1 by (simp add: row_elev)
    have d1: "?d ! (i + 1) = int (i + 1)" using i1 by (simp add: row_dist)
    show ?thesis unfolding a using assms len e d e1 d1 i1 by (auto simp: Let_def)
  qed
qed

lemma row_river_downhill:
  assumes "0 < n"
  shows "river_downhill (row_world n) (row_distance n) = Inr (row_downhill n)"
proof -
  let ?w = "row_world n"
  have "set [0..<n] \<subseteq> {..<length (adjacency ?w)}" by (auto simp: row_lengths)
  from assign_downhill_result[OF this, of "elevations ?w" "row_distance n" "replicate n (- 1)"]
  obtain dh where r: "assign_downhill (adjacency ?w) (elevations ?w) (row_distance n) [0..<n]
       (replicate n (- 1)) = Inr dh" "length dh = n"
    "\<forall>i < n. dh ! i =
        (if i \<in> set [0..<n] \<and> 5 / 100 < elevations ?w ! i
         then fst (scan_downhill (elevations ?w) (row_distance n) (adjacency ?w ! i)
                (- 1, elevations ?w ! i, row_distance n ! i))
         else replicate n (- 1) ! i)"
    by auto
  have "dh = row_downhill n"
  proof (rule nth_equalityI)
    show "length dh = length (row_downhill n)" using r(2) assms by (simp add: row_downhill_def)
  next
    fix i assume "i < length dh"
    then have i: "i < n" using r(2) by simp
    show "dh ! i = row_downhill n ! i"
    proof (cases "i = 0")
      case True
      then show ?thesis using r(3) i by (simp add: row_elev row_downhill_def)
    next
      case False
      then have "dh ! i = int (i - 1)" using r(3) i row_scan[of i n] by (simp add: row_elev)
      moreover have "row_downhill n ! i = int (i - 1)"
        using False i by (cases i) (simp_all add: row_downhill_def)
      ultimately show ?thesis by simp
    qed
  qed
  then show ?thesis using r(1) by (simp add: river_downhill_def row_cellCount)
qed

lemma row_sort:
  "k \<le> n \<Longrightarrow>
   sort_with (river_compare (elevations (row_world n)) (row_distance n)) [k..<n] (rev [0..<k]) =
     rev [0..<n]"
proof (induction "n - k" arbitrary: k)
  case 0
  then show ?case by simp
next
  case (Suc m)
  let ?c = "river_compare (elevations (row_world n)) (row_distance n)"
  have k: "k < n" using Suc.hyps(2) by simp
  have ins: "insert_sorted ?c k (rev [0..<k]) = rev [0..<Suc k]"
  proof (cases k)
    case 0
    then show ?thesis by simp
  next
    case (Suc j)
    have "?c k j < 0"
      using k Suc by (simp add: river_compare_def row_elev row_dist)
    then show ?thesis using Suc by simp
  qed
  have "sort_with ?c [k..<n] (rev [0..<k]) = sort_with ?c [Suc k..<n] (rev [0..<Suc k])"
    using k ins by (simp add: upt_conv_Cons)
  also have "\<dots> = rev [0..<n]" using Suc.hyps(2) k by (intro Suc.hyps(1)) simp_all
  finally show ?case .
qed

lemma row_river_order: "river_order (row_world n) (row_distance n) = rev [0..<n]"
  using row_sort[of 0 n] by (simp add: river_order_def row_cellCount)

text \<open>
  The accumulation loop along a chain: when every cell \<open>i > 0\<close> drains into cell \<open>i - 1\<close> and
  the cells are taken from the far end, cell \<open>j\<close> ends with the flux of the far end passed
  through \<open>k - j\<close> stores, each adding the initial flux \<open>c\<close> of a cell.
\<close>

lemma chain_accumulate:
  assumes dh: "\<forall>i. 0 < i \<and> i < n \<longrightarrow> downhill ! i = int (i - 1) \<and> 0 < elev ! i"
    and d0: "downhill ! 0 < 0"
  shows "length flux = n \<Longrightarrow> k < n \<Longrightarrow> \<forall>i < k. flux ! i = c \<Longrightarrow> j < n \<Longrightarrow>
     accumulate_flux fround elev downhill (rev [0..<Suc k]) flux ! j =
       (if j \<le> k then ((\<lambda>x. fround (c + x)) ^^ (k - j)) (flux ! k) else flux ! j)"
proof (induction k arbitrary: flux j)
  case 0
  then show ?case using d0 by (simp add: Let_def)
next
  case (Suc k)
  define flux1 where "flux1 = flux[k := fround (c + flux ! Suc k)]"
  have run: "accumulate_flux fround elev downhill (rev [0..<Suc (Suc k)]) flux =
             accumulate_flux fround elev downhill (rev [0..<Suc k]) flux1"
  proof -
    have r: "rev [0..<Suc (Suc k)] = Suc k # rev [0..<Suc k]" by simp
    have t: "downhill ! Suc k = int k" "0 < elev ! Suc k"
      using dh[rule_format, of "Suc k"] Suc.prems(2) by simp_all
    have "flux ! k = c" using Suc.prems(3) by simp
    then show ?thesis unfolding r accumulate_flux.simps Let_def flux1_def using t by simp
  qed
  have len: "length flux1 = n" using Suc.prems(1) by (simp add: flux1_def)
  have "accumulate_flux fround elev downhill (rev [0..<Suc k]) flux1 ! j =
       (if j \<le> k then ((\<lambda>x. fround (c + x)) ^^ (k - j)) (flux1 ! k) else flux1 ! j)"
    using Suc.prems len by (intro Suc.IH) (simp_all add: flux1_def)
  moreover have "flux1 ! k = fround (c + flux ! Suc k)" using Suc.prems(1,2) by (simp add: flux1_def)
  moreover have "flux1 ! j = flux ! j" if "k < j" using that by (simp add: flux1_def)
  moreover have "((\<lambda>x. fround (c + x)) ^^ (k - j)) (fround (c + flux ! Suc k)) =
                 ((\<lambda>x. fround (c + x)) ^^ (Suc k - j)) (flux ! Suc k)" if "j \<le> k"
  proof -
    have "Suc k - j = Suc (k - j)" using that by simp
    then show ?thesis
      using funpow_swap1[of "\<lambda>x. fround (c + x)" "k - j" "flux ! Suc k"] by simp
  qed
  ultimately show ?case unfolding run by (cases "j \<le> k") (auto simp: le_Suc_eq)
qed

lemma row_river_flux:
  assumes "j < n"
  shows "river_flux float32 (row_world n) (row_distance n) (row_downhill n) ! j =
           real (min (n - j) (2 ^ 24))"
proof -
  let ?w = "row_world n"
  have n: "0 < n" using assms by simp
  have dh: "\<forall>i. 0 < i \<and> i < n \<longrightarrow> row_downhill n ! i = int (i - 1) \<and> 0 < elevations ?w ! i"
  proof (intro allI impI)
    fix i assume i: "0 < i \<and> i < n"
    then have "row_downhill n ! i = int (i - 1)" by (cases i) (simp_all add: row_downhill_def)
    then show "row_downhill n ! i = int (i - 1) \<and> 0 < elevations ?w ! i"
      using i by (simp add: row_elev)
  qed
  have d0: "row_downhill n ! 0 < 0" by (simp add: row_downhill_def)
  have "accumulate_flux float32 (elevations ?w) (row_downhill n) (rev [0..<Suc (n - 1)])
          (replicate n 1) ! j =
       (if j \<le> n - 1 then ((\<lambda>x. float32 (1 + x)) ^^ (n - 1 - j)) (replicate n 1 ! (n - 1))
        else replicate n 1 ! j)"
    using n assms by (intro chain_accumulate[OF dh d0]) simp_all
  then have "accumulate_flux float32 (elevations ?w) (row_downhill n) (rev [0..<n])
          (replicate n 1) ! j = ((\<lambda>x. float32 (1 + x)) ^^ (n - 1 - j)) 1"
    using n assms by simp
  moreover have "Suc (n - 1 - j) = n - j" using assms by simp
  ultimately show ?thesis
    unfolding river_flux_def row_river_order row_cellCount float32_small(1) float32_saturates
    by simp
qed

subsection \<open>Pass D, and the theorems on passes C and D\<close>




definition sorted_permutation :: "world \<Rightarrow> int list \<Rightarrow> nat list \<Rightarrow> bool" where
  "sorted_permutation w distToCoast order \<longleftrightarrow>
     distinct order \<and> set order = {..<cellCount w} \<and>
     sorted_wrt (\<lambda>a b. river_compare (elevations w) distToCoast a b \<le> 0) order"

lemma targets_later_sorted:
  assumes ok: "\<forall>i < cellCount w. downhill_ok (adjacency w) (elevations w) dc downhill i"
    and le: "length (elevations w) = cellCount w"
    and sp: "sorted_permutation w dc order"
  shows "targets_later (elevations w) downhill order"
  unfolding targets_later_def
proof (intro allI impI)
  fix pre x post
  assume a: "order = pre @ x # post \<and> 0 \<le> downhill ! x \<and> 0 < elevations w ! x"
  let ?c = "river_compare (elevations w) dc"
  let ?t = "nat (downhill ! x)"
  have so: "sorted_wrt (\<lambda>a b. ?c a b \<le> 0) (pre @ x # post)"
    and se: "set (pre @ x # post) = {..<cellCount w}"
    using sp a unfolding sorted_permutation_def by simp_all
  have x: "x < cellCount w" using se by auto
  have "downhill ! x \<noteq> - 1" using a by auto
  then have l: "?t < length (elevations w)" "lower_key (elevations w) dc ?t x"
    using downhill_ok_link ok x by blast+
  have pos: "0 < ?c ?t x" using river_compare_lower[OF l(2)] .
  have "?t \<in> set (pre @ x # post)" using l(1) le se by simp
  moreover have "?t \<noteq> x" using l(2) lower_key_irrefl by metis
  moreover have "?t \<notin> set pre"
  proof
    assume "?t \<in> set pre"
    then have "?c ?t x \<le> 0" using so by (simp add: sorted_wrt_append)
    then show False using pos by simp
  qed
  ultimately show "?t \<in> set post" by simp
qed

text \<open>
  \<open>upstream w downhill c\<close>: the cells with elevation above 0 whose downhill target is \<open>c\<close>.
\<close>

definition upstream :: "world \<Rightarrow> int list \<Rightarrow> nat \<Rightarrow> nat set" where
  "upstream w downhill c = {i. i < cellCount w \<and> downhill ! i = int c \<and> 0 < elevations w ! i}"

text \<open>
  The order of pass C, and the flux equation for a store that holds the whole numbers up to
  the cell count exactly.
\<close>

lemma river_flux_exact_store:
  assumes "length (elevations w) = cellCount w"
    and "length (adjacency w) = cellCount w"
  shows "\<exists>downhill. river_downhill w distToCoast = Inr downhill \<and>
     sorted_permutation w distToCoast (river_order w distToCoast) \<and>
     (\<forall>order. sorted_permutation w distToCoast order \<longrightarrow>
        (\<forall>i < cellCount w. 0 \<le> downhill ! i \<and> 0 < elevations w ! i \<longrightarrow>
           (\<exists>pre post. order = pre @ i # post \<and> nat (downhill ! i) \<in> set post)) \<and>
        (exact_upto fround (cellCount w) \<longrightarrow>
           (\<forall>c < cellCount w.
              accumulate_flux fround (elevations w) downhill order
                (replicate (cellCount w) (fround 1)) ! c =
              1 + (\<Sum>i \<in> upstream w downhill c.
                     accumulate_flux fround (elevations w) downhill order
                       (replicate (cellCount w) (fround 1)) ! i))))"
proof -
  let ?N = "cellCount w" and ?e = "elevations w"
  obtain downhill where r: "river_downhill w distToCoast = Inr downhill"
    "length downhill = ?N"
    "\<forall>i < ?N. downhill_ok (adjacency w) ?e distToCoast downhill i"
    using river_downhill_ok[OF assms(1,2)] by blast
  have sp: "sorted_permutation w distToCoast (river_order w distToCoast)"
    using river_order_result[of w distToCoast] unfolding sorted_permutation_def by simp
  have main: "(\<forall>i < ?N. 0 \<le> downhill ! i \<and> 0 < ?e ! i \<longrightarrow>
           (\<exists>pre post. order = pre @ i # post \<and> nat (downhill ! i) \<in> set post)) \<and>
        (exact_upto fround ?N \<longrightarrow>
           (\<forall>c < ?N. accumulate_flux fround ?e downhill order (replicate ?N (fround 1)) ! c =
              1 + (\<Sum>i \<in> upstream w downhill c.
                  accumulate_flux fround ?e downhill order (replicate ?N (fround 1)) ! i)))"
    if so: "sorted_permutation w distToCoast order" for order
  proof -
    let ?cnt = "accumulate_count ?e downhill order (replicate ?N 1)"
    let ?flux = "accumulate_flux fround ?e downhill order (replicate ?N (fround 1))"
    have di: "distinct order" and se: "set order = {..<?N}"
      using so unfolding sorted_permutation_def by simp_all
    have tl: "targets_later ?e downhill order"
      using targets_later_sorted[OF r(3) assms(1) so] .
    have before: "\<exists>pre post. order = pre @ i # post \<and> nat (downhill ! i) \<in> set post"
      if "i < ?N" "0 \<le> downhill ! i \<and> 0 < ?e ! i" for i
    proof -
      have "i \<in> set order" using that(1) se by simp
      then obtain pre post where "order = pre @ i # post" by (meson split_list)
      then show ?thesis using tl that(2) unfolding targets_later_def by blast
    qed
    have acc: "length ?cnt = length (replicate ?N (1::nat)) \<and>
       (\<forall>c < length (replicate ?N (1::nat)). ?cnt ! c =
         1 + inflow ?e downhill ?cnt (set ([] @ order)) c)"
      using di tl se by (intro accumulate_count_inv) (simp_all add: inflow_def)
    have lenc: "length ?cnt = ?N" using acc by simp
    have cnt: "?cnt ! c = 1 + (\<Sum>i \<in> upstream w downhill c. ?cnt ! i)"
      if "c < ?N" for c
    proof -
      have "?cnt ! c = 1 + inflow ?e downhill ?cnt {..<?N} c"
        using acc that se by simp
      also have "inflow ?e downhill ?cnt {..<?N} c =
          (\<Sum>i \<in> {i \<in> {..<?N}. downhill ! i = int c \<and> 0 < ?e ! i}. ?cnt ! i)"
        unfolding inflow_def by (rule sum.inter_filter[symmetric]) simp
      also have "{i \<in> {..<?N}. downhill ! i = int c \<and> 0 < ?e ! i} = upstream w downhill c"
        unfolding upstream_def by auto
      finally show ?thesis .
    qed
    have flux: "?flux ! c = 1 + (\<Sum>i \<in> upstream w downhill c. ?flux ! i)"
      if c: "c < ?N" and ex: "exact_upto fround ?N" for c
    proof -
      have ones: "replicate ?N (fround 1) = map real (replicate ?N 1)"
      proof -
        have "1 \<le> ?N" using c by simp
        then have "fround (real 1) = real 1" using ex unfolding exact_upto_def by blast
        then show ?thesis by simp
      qed
      have "(\<Sum>c \<in> live ?e downhill ?N []. replicate ?N (1::nat) ! c) = ?N"
        by (simp add: live_def)
      then have "accumulate_flux fround ?e downhill order (map real (replicate ?N 1)) = map real ?cnt"
        using di tl se by (intro accumulate_flux_exact[OF ex, of "[]"]) simp_all
      then have fc: "?flux = map real ?cnt" unfolding ones .
      have up: "\<And>i. i \<in> upstream w downhill c \<Longrightarrow> i < ?N" unfolding upstream_def by simp
      have "?flux ! c = real (?cnt ! c)" using fc lenc c by simp
      also have "\<dots> = 1 + (\<Sum>i \<in> upstream w downhill c. real (?cnt ! i))"
        using cnt[OF c] by simp
      also have "(\<Sum>i \<in> upstream w downhill c. real (?cnt ! i)) =
                 (\<Sum>i \<in> upstream w downhill c. ?flux ! i)"
        using fc lenc up by (intro sum.cong) simp_all
      finally show ?thesis .
    qed
    show ?thesis using before flux by blast
  qed
  show ?thesis using r(1) sp main by blast
qed

text \<open>
  C3. The sorted indices are a permutation of the cells ordered by elevation descending, with
  coast distance descending as the tiebreak. In every such permutation, each cell with a
  downhill target and elevation above 0 comes before its target. In a world of at most
  \<open>2^24 = 16777216\<close> cells, accumulating the flux in that order in the \<open>Float32Array\<close> gives
  every cell a final flow volume of 1 plus the sum of the final flow volumes of the cells
  with elevation above 0 whose downhill target it is.
\<close>

theorem river_flux_accumulation:
  assumes "length (elevations w) = cellCount w"
    and "length (adjacency w) = cellCount w"
  shows "\<exists>downhill. river_downhill w distToCoast = Inr downhill \<and>
     sorted_permutation w distToCoast (river_order w distToCoast) \<and>
     (\<forall>order. sorted_permutation w distToCoast order \<longrightarrow>
        (\<forall>i < cellCount w. 0 \<le> downhill ! i \<and> 0 < elevations w ! i \<longrightarrow>
           (\<exists>pre post. order = pre @ i # post \<and> nat (downhill ! i) \<in> set post)) \<and>
        (cellCount w \<le> 2 ^ 24 \<longrightarrow>
           (\<forall>c < cellCount w.
              accumulate_flux float32 (elevations w) downhill order
                (replicate (cellCount w) (float32 1)) ! c =
              1 + (\<Sum>i \<in> upstream w downhill c.
                     accumulate_flux float32 (elevations w) downhill order
                       (replicate (cellCount w) (float32 1)) ! i))))"
  using river_flux_exact_store[OF assms, of distToCoast float32] float32_exact_upto[of "cellCount w"]
  by blast

text \<open>
  The bound on the number of cells cannot be dropped: the flow volumes are whole numbers up
  to the cell count, and a Float32 holds the whole numbers only up to \<open>2^24\<close>. In the row of
  \<open>2^24 + 1 = 16777217\<close> cells, which \<open>fillSinks\<close> leaves as it is, every cell but the sea
  drains into the cell before it. The flow volume of cell 1 is \<open>2^24\<close>, and the store of
  \<open>1 + 2^24\<close> into cell 0 is rounded to \<open>2^24\<close>: cell 0 ends with \<open>2^24\<close>, not with 1 plus
  the flow volume of cell 1.
\<close>

lemma row_upstream:
  assumes "Suc c < n"
  shows "upstream (row_world n) (row_downhill n) c = {Suc c}"
proof -
  have "i < n \<and> row_downhill n ! i = int c \<and> 0 < elevations (row_world n) ! i \<longleftrightarrow> i = Suc c"
    for i
  proof (cases i)
    case 0
    then show ?thesis by (simp add: row_downhill_def)
  next
    case (Suc j)
    then show ?thesis using assms by (auto simp: row_downhill_def row_elev)
  qed
  then show ?thesis unfolding upstream_def row_cellCount by auto
qed

lemma row_flux_rounded:
  assumes "2 ^ 24 < n"
  shows "cellCount (row_world n) = n"
    and "length (elevations (row_world n)) = cellCount (row_world n)"
    and "length (adjacency (row_world n)) = cellCount (row_world n)"
    and "fillSinks float32 (row_world n) = Inr (row_world n)"
    and "calculateDistanceToCoast (row_world n) = Some (Inr (row_distance n))"
    and "river_downhill (row_world n) (row_distance n) = Inr (row_downhill n)"
    and "upstream (row_world n) (row_downhill n) 0 = {1}"
    and "river_flux float32 (row_world n) (row_distance n) (row_downhill n) ! 0 = 2 ^ 24"
    and "river_flux float32 (row_world n) (row_distance n) (row_downhill n) ! 1 = 2 ^ 24"
proof -
  have n: "0 < n" "1 < n" "Suc 0 < n" using assms by (cases n; simp)+
  show "cellCount (row_world n) = n" by (rule row_cellCount)
  show "length (elevations (row_world n)) = cellCount (row_world n)"
    "length (adjacency (row_world n)) = cellCount (row_world n)"
    using n(1) by (simp_all add: row_lengths row_cellCount)
  show "fillSinks float32 (row_world n) = Inr (row_world n)"
    using row_fillSinks[OF n(2)] .
  show "calculateDistanceToCoast (row_world n) = Some (Inr (row_distance n))"
    using row_calculateDistanceToCoast[OF n(1)] .
  show "river_downhill (row_world n) (row_distance n) = Inr (row_downhill n)"
    using row_river_downhill[OF n(1)] .
  show "upstream (row_world n) (row_downhill n) 0 = {1}"
    using row_upstream[of 0 n] n by simp
  have "min (n - 0) (2 ^ 24) = (2 ^ 24 :: nat)" "min (n - 1) (2 ^ 24) = (2 ^ 24 :: nat)"
    using assms by simp_all
  then show "river_flux float32 (row_world n) (row_distance n) (row_downhill n) ! 0 = 2 ^ 24"
    "river_flux float32 (row_world n) (row_distance n) (row_downhill n) ! 1 = 2 ^ 24"
    using row_river_flux[of 0 n] row_river_flux[of 1 n] n by simp_all
qed

theorem river_flux_rounding_counterexample:
  "cellCount (row_world 16777217) = 16777217 \<and>
   length (elevations (row_world 16777217)) = cellCount (row_world 16777217) \<and>
   length (adjacency (row_world 16777217)) = cellCount (row_world 16777217) \<and>
   fillSinks float32 (row_world 16777217) = Inr (row_world 16777217) \<and>
   calculateDistanceToCoast (row_world 16777217) = Some (Inr (row_distance 16777217)) \<and>
   river_downhill (row_world 16777217) (row_distance 16777217) = Inr (row_downhill 16777217) \<and>
   upstream (row_world 16777217) (row_downhill 16777217) 0 = {1} \<and>
   river_flux float32 (row_world 16777217) (row_distance 16777217) (row_downhill 16777217) ! 0 =
     16777216 \<and>
   river_flux float32 (row_world 16777217) (row_distance 16777217) (row_downhill 16777217) ! 1 =
     16777216 \<and>
   river_flux float32 (row_world 16777217) (row_distance 16777217) (row_downhill 16777217) ! 0 \<noteq>
     1 + sum ((!) (river_flux float32 (row_world 16777217) (row_distance 16777217)
                    (row_downhill 16777217)))
           (upstream (row_world 16777217) (row_downhill 16777217) 0)"
proof -
  have big: "(2::nat) ^ 24 < 16777217" by simp
  note r = row_flux_rounded[OF big]
  have f: "river_flux float32 (row_world 16777217) (row_distance 16777217)
             (row_downhill 16777217) ! 0 = 16777216"
    "river_flux float32 (row_world 16777217) (row_distance 16777217)
             (row_downhill 16777217) ! 1 = 16777216"
    using r(8,9) by simp_all
  have "river_flux float32 (row_world 16777217) (row_distance 16777217)
          (row_downhill 16777217) ! 0 \<noteq>
     1 + sum ((!) (river_flux float32 (row_world 16777217) (row_distance 16777217)
                    (row_downhill 16777217)))
           (upstream (row_world 16777217) (row_downhill 16777217) 0)"
    unfolding r(7) using f by simp
  then show ?thesis using r(1-7) f by blast
qed






lemma plateau_world_flux:
  "river_order plateau_world [0, 1, 2] = [2, 1, 0]"
  "river_flux float32 plateau_world [0, 1, 2] [- 1, 0, 1] = [3, 2, 1]"
  by (simp_all add: river_flux_def river_order_def river_compare_def cellCount_def plateau_world_def
      upt_rec[of 0] upt_rec[of "Suc 0"] upt_rec[of 2] upt_rec[of 3] Let_def numeral_3_eq_3
      float32_small)

theorem river_flux_accumulation_witness:
  "length (elevations plateau_world) = cellCount plateau_world \<and>
   length (adjacency plateau_world) = cellCount plateau_world \<and>
   cellCount plateau_world \<le> 2 ^ 24 \<and>
   river_downhill plateau_world [0, 1, 2] = Inr [- 1, 0, 1] \<and>
   river_order plateau_world [0, 1, 2] = [2, 1, 0] \<and>
   sorted_permutation plateau_world [0, 1, 2] [2, 1, 0] \<and>
   river_flux float32 plateau_world [0, 1, 2] [- 1, 0, 1] = [3, 2, 1] \<and>
   (0 \<le> [- 1, 0, 1 :: int] ! 2 \<and> 0 < elevations plateau_world ! 2) \<and>
   (\<exists>pre post. [2, 1, 0] = pre @ 2 # post \<and> nat ([- 1, 0, 1] ! 2) \<in> set post) \<and>
   upstream plateau_world [- 1, 0, 1] 1 = {2} \<and>
   [3, 2, 1] ! 1 = 1 + (\<Sum>i \<in> upstream plateau_world [- 1, 0, 1] 1. [3, 2, 1 :: real] ! i)"
proof -
  have l: "length (elevations plateau_world) = cellCount plateau_world"
    "length (adjacency plateau_world) = cellCount plateau_world"
    "(2 :: nat) < cellCount plateau_world" "(1 :: nat) < cellCount plateau_world"
    by (simp_all add: plateau_world_def cellCount_def)
  have small: "cellCount plateau_world \<le> 2 ^ 24" by (simp add: plateau_world_def cellCount_def)
  have p: "0 \<le> [- 1, 0, 1 :: int] ! 2 \<and> 0 < elevations plateau_world ! 2"
    by (simp add: plateau_world_def)
  have up: "upstream plateau_world [- 1, 0, 1] 1 = {2}"
  proof -
    have i: "i < 3 \<and> [- 1, 0, 1 :: int] ! i = 1 \<and> 0 < [- 1, 1, 1 :: real] ! i \<longleftrightarrow> i = 2"
      for i :: nat
      by (cases i rule: nat.exhaust; simp add: nth_Cons split: nat.splits)
    have cc: "cellCount plateau_world = 3" by (simp add: plateau_world_def cellCount_def)
    have e: "elevations plateau_world = [- 1, 1, 1]" by (simp add: plateau_world_def)
    show ?thesis unfolding upstream_def cc e using i by auto
  qed
  obtain downhill where r: "river_downhill plateau_world [0, 1, 2] = Inr downhill"
    and sp: "sorted_permutation plateau_world [0, 1, 2] (river_order plateau_world [0, 1, 2])"
    and every: "\<forall>order. sorted_permutation plateau_world [0, 1, 2] order \<longrightarrow>
        (\<forall>i < cellCount plateau_world. 0 \<le> downhill ! i \<and> 0 < elevations plateau_world ! i \<longrightarrow>
           (\<exists>pre post. order = pre @ i # post \<and> nat (downhill ! i) \<in> set post)) \<and>
        (cellCount plateau_world \<le> 2 ^ 24 \<longrightarrow>
           (\<forall>c < cellCount plateau_world.
              accumulate_flux float32 (elevations plateau_world) downhill order
                (replicate (cellCount plateau_world) (float32 1)) ! c =
              1 + (\<Sum>i \<in> upstream plateau_world downhill c.
                     accumulate_flux float32 (elevations plateau_world) downhill order
                       (replicate (cellCount plateau_world) (float32 1)) ! i)))"
    using river_flux_accumulation[OF l(1,2), of "[0, 1, 2]"] by blast
  have d: "downhill = [- 1, 0, 1]" using r plateau_world_downhill by simp
  have sp': "sorted_permutation plateau_world [0, 1, 2] [2, 1, 0]"
    using sp unfolding plateau_world_flux .
  have fl: "accumulate_flux float32 (elevations plateau_world) [- 1, 0, 1] [2, 1, 0]
             (replicate (cellCount plateau_world) (float32 1)) = [3, 2, 1]"
    using plateau_world_flux(2) unfolding river_flux_def plateau_world_flux(1) .
  have both: "(\<forall>i < cellCount plateau_world. 0 \<le> [- 1, 0, 1 :: int] ! i \<and> 0 < elevations plateau_world ! i \<longrightarrow>
           (\<exists>pre post. [2, 1, 0] = pre @ i # post \<and> nat ([- 1, 0, 1] ! i) \<in> set post)) \<and>
        (cellCount plateau_world \<le> 2 ^ 24 \<longrightarrow>
          (\<forall>c < cellCount plateau_world. [3, 2, 1] ! c =
           1 + (\<Sum>i \<in> upstream plateau_world [- 1, 0, 1] c. [3, 2, 1 :: real] ! i)))"
    using every[unfolded d, rule_format, OF sp'] unfolding fl by blast
  have "\<exists>pre post. [2, 1, 0] = pre @ 2 # post \<and> nat ([- 1, 0, 1] ! 2) \<in> set post"
    using both l(3) p by blast
  moreover have "[3, 2, 1] ! 1 = 1 + (\<Sum>i \<in> upstream plateau_world [- 1, 0, 1] 1. [3, 2, 1 :: real] ! i)"
    using both l(4) small by blast
  ultimately show ?thesis
    using l(1,2) small up plateau_world_downhill plateau_world_flux p sp' by blast
qed

end
